theory Spec2Isabelle
  imports Complex_Main "HOL-Library.Sublist"
begin

section \<open>JavaScript values\<close>

text \<open>
  The program is TypeScript; at run time its task collection is an array of plain
  JavaScript objects, and the data it loads and imports is of unknown shape. The model
  therefore works on untyped values. A string is its sequence of UTF-16 code units, a
  number is its exact value (rounding to a double is not modelled), and an object is its
  list of own properties in insertion order (the special place of array-index keys in
  the enumeration order is not modelled).
\<close>

type_synonym jsstring = "nat list"

definition js :: "string \<Rightarrow> jsstring" where
  "js s = map of_char s"

datatype jsval =
    JUndefined
  | JNull
  | JBool bool
  | JNum rat
  | JStr jsstring
  | JArr "jsval list"
  | JObj "(jsstring \<times> jsval) list"

type_synonym obj = "(jsstring \<times> jsval) list"

text \<open>What the program's code can throw, or have thrown at it by the platform.\<close>

datatype exn =
    TypeError
  | SyntaxError
  | URIError
  | InvalidCharacterError
  | NotAList

text \<open>ToBoolean: \<open>!!v\<close>, and the test of \<open>v || w\<close>.\<close>

fun truthy :: "jsval \<Rightarrow> bool" where
  "truthy JUndefined = False"
| "truthy JNull = False"
| "truthy (JBool b) = b"
| "truthy (JNum n) = (n \<noteq> 0)"
| "truthy (JStr s) = (s \<noteq> [])"
| "truthy (JArr _) = True"
| "truthy (JObj _) = True"

text \<open>\<open>o.k\<close> on an object: the own property, or \<open>undefined\<close>.\<close>

fun obj_get :: "obj \<Rightarrow> jsstring \<Rightarrow> jsval" where
  "obj_get [] k = JUndefined"
| "obj_get ((k', v) # ps) k = (if k' = k then v else obj_get ps k)"

text \<open>
  A property written in an object literal after a spread: an existing key keeps its
  place and takes the new value, a new key goes to the end.
\<close>

fun obj_set :: "jsstring \<Rightarrow> jsval \<Rightarrow> obj \<Rightarrow> obj" where
  "obj_set k v [] = [(k, v)]"
| "obj_set k v ((k', v') # ps) =
     (if k' = k then (k, v) # ps else (k', v') # obj_set k v ps)"

section \<open>The task collection: toggle and delete\<close>

text \<open>
  \<^verbatim>\<open>setTasks(prev => prev.map(t =>
      t.id === taskId ? { ...t, isCompleted: !t.isCompleted } : t));\<close>
\<close>

definition toggleTask :: "jsstring \<Rightarrow> obj list \<Rightarrow> obj list" where
  "toggleTask taskId prev =
     map (\<lambda>t. if obj_get t (js ''id'') = JStr taskId
              then obj_set (js ''isCompleted'')
                     (JBool (\<not> truthy (obj_get t (js ''isCompleted'')))) t
              else t) prev"

text \<open>\<^verbatim>\<open>setTasks(prev => prev.filter(t => t.id !== taskId));\<close>\<close>

definition deleteTask :: "jsstring \<Rightarrow> obj list \<Rightarrow> obj list" where
  "deleteTask taskId prev = filter (\<lambda>t. obj_get t (js ''id'') \<noteq> JStr taskId) prev"

section \<open>The dashboard\<close>



definition isCompleted :: "obj \<Rightarrow> bool" where
  "isCompleted t = truthy (obj_get t (js ''isCompleted''))"









section \<open>Example data\<close>

definition task_a :: obj where
  "task_a = [(js ''id'', JStr (js ''a'')), (js ''title'', JStr (js ''Buy milk'')),
             (js ''assignee'', JStr (js ''Anna'')), (js ''priority'', JStr (js ''Medium'')),
             (js ''isCompleted'', JBool False), (js ''createdAt'', JNum 1700000000000)]"

definition task_b :: obj where
  "task_b = [(js ''id'', JStr (js ''b'')), (js ''title'', JStr (js ''Walk dog'')),
             (js ''assignee'', JStr (js ''Bella'')), (js ''priority'', JStr (js ''High'')),
             (js ''isCompleted'', JBool True), (js ''createdAt'', JNum 1700000000500)]"

section \<open>The id generator\<close>

text \<open>\<open>Number.prototype.toString(radix)\<close> and the decimal form of a template literal, on integers.\<close>

function radix_digits :: "nat \<Rightarrow> nat \<Rightarrow> nat list" where
  "radix_digits b n = (if b < 2 \<or> n < b then [n] else radix_digits b (n div b) @ [n mod b])"
  by pat_completeness auto
termination
  by (relation "measure snd") auto

definition digit_char :: "nat \<Rightarrow> nat" where
  "digit_char d = (if d < 10 then 48 + d else 87 + d)"

definition decimal :: "nat \<Rightarrow> jsstring" where
  "decimal n = map digit_char (radix_digits 10 n)"

definition toString36 :: "int \<Rightarrow> jsstring" where
  "toString36 i =
     (if i < 0 then 45 # map digit_char (radix_digits 36 (nat (- i)))
      else map digit_char (radix_digits 36 (nat i)))"

text \<open>\<open>s.substring(a, b)\<close> for \<open>a \<le> b\<close>.\<close>

definition substring :: "nat \<Rightarrow> nat \<Rightarrow> jsstring \<Rightarrow> jsstring" where
  "substring a b s = take (b - a) (drop a s)"

text \<open>
  What one call of \<open>generateId\<close> reads from its surroundings: \<open>Date.now()\<close>, the text
  \<open>Math.random().toString(36)\<close>, and the result of \<open>crypto.randomUUID()\<close>, which is
  \<open>None\<close> when \<open>crypto\<close> or the method is missing or the call throws.
\<close>

record idEnv =
  now :: int
  random36 :: jsstring
  uuid :: "jsstring option"

text \<open>
  \<^verbatim>\<open>let idCounter = 0;
const generateId = () => {
  const timestamp = Date.now().toString(36);
  const randomPart = Math.random().toString(36).substring(2, 8);
  idCounter = (idCounter + 1) % 10000;
  if (typeof crypto !== 'undefined' && crypto.randomUUID) {
    try { return crypto.randomUUID(); } catch (e) { }
  }
  return `${timestamp}-${randomPart}-${idCounter}`;
};\<close>
  The function takes the counter and returns the id with the new counter.
\<close>

definition generateId :: "idEnv \<Rightarrow> nat \<Rightarrow> jsstring \<times> nat" where
  "generateId e idCounter =
     (let timestamp = toString36 (now e);
          randomPart = substring 2 8 (random36 e);
          idCounter' = (idCounter + 1) mod 10000
      in case uuid e of
           Some u \<Rightarrow> (u, idCounter')
         | None \<Rightarrow> (timestamp @ js ''-'' @ randomPart @ js ''-'' @ decimal idCounter', idCounter'))"

text \<open>Sequential calls, one environment per call.\<close>

fun generateIds :: "idEnv list \<Rightarrow> nat \<Rightarrow> jsstring list \<times> nat" where
  "generateIds [] c = ([], c)"
| "generateIds (e # es) c =
     (let (i, c') = generateId e c; (is, c'') = generateIds es c' in (i # is, c''))"

text \<open>The form of a UUID: 8-4-4-4-12 lower-case hexadecimal digits.\<close>

definition is_hex_lower :: "nat \<Rightarrow> bool" where
  "is_hex_lower c \<longleftrightarrow> (48 \<le> c \<and> c \<le> 57) \<or> (97 \<le> c \<and> c \<le> 102)"

definition uuid_shaped :: "jsstring \<Rightarrow> bool" where
  "uuid_shaped u \<longleftrightarrow>
     length u = 36 \<and>
     (\<forall>i < 36. if i \<in> {8, 13, 18, 23} then u ! i = 45 else is_hex_lower (u ! i))"

text \<open>The id of the fallback path, for a given value of the counter.\<close>

definition fallback_id :: "idEnv \<Rightarrow> nat \<Rightarrow> jsstring" where
  "fallback_id e c = toString36 (now e) @ js ''-'' @ substring 2 8 (random36 e) @ js ''-'' @ decimal c"

text \<open>The part of a text after its last dash.\<close>

definition last_segment :: "jsstring \<Rightarrow> jsstring" where
  "last_segment s = rev (takeWhile (\<lambda>c. c \<noteq> 45) (rev s))"

definition frozen :: idEnv where
  "frozen = \<lparr> now = 1700000000000, random36 = js ''0.4fzyo82mvyr'', uuid = None \<rparr>"

definition frozen_calls :: "idEnv list" where
  "frozen_calls = replicate 10000 frozen"

section \<open>The application state and the manual-add operation\<close>

text \<open>
  \<open>String.prototype.trim\<close> removes white space and line terminators from both ends:
  TAB, LF, VT, FF, CR, SPACE, NBSP, the Unicode space separators, LS, PS and the BOM.
\<close>

definition is_js_whitespace :: "nat \<Rightarrow> bool" where
  "is_js_whitespace c \<longleftrightarrow>
     c \<in> {9, 10, 11, 12, 13, 32, 160, 5760, 8232, 8233, 8239, 8287, 12288, 65279}
     \<or> (8192 \<le> c \<and> c \<le> 8202)"

definition trim :: "jsstring \<Rightarrow> jsstring" where
  "trim s = rev (dropWhile is_js_whitespace (rev (dropWhile is_js_whitespace s)))"

text \<open>
  The state of the component that the operations below read or write, with the
  module-level \<open>idCounter\<close>. A sync message is its text and its type.
\<close>

record app =
  tasks :: "obj list"
  idCounter :: nat
  manualTitle :: jsstring
  manualAssignee :: jsstring
  manualPriority :: jsstring
  isAddModalOpen :: bool
  importCode :: jsstring
  syncMessage :: "(jsstring \<times> jsstring) option"



section \<open>The platform's text codecs\<close>

text \<open>
  The sync code is built and read with functions of the platform, not of the
  repository. They are modelled from their standards: \<open>btoa\<close> and \<open>atob\<close> from the HTML
  standard (forgiving-base64), \<open>encodeURIComponent\<close> and \<open>decodeURIComponent\<close> from
  ECMA-262 (Encode and Decode), \<open>JSON.stringify\<close> and \<open>JSON.parse\<close> from ECMA-262 and
  ECMA-404.
\<close>

subsection \<open>Base 64\<close>

definition b64_char :: "nat \<Rightarrow> nat" where
  "b64_char i =
     (if i < 26 then 65 + i else if i < 52 then 71 + i else if i < 62 then i - 4
      else if i = 62 then 43 else 47)"

definition b64_index :: "nat \<Rightarrow> nat option" where
  "b64_index c =
     (if 65 \<le> c \<and> c \<le> 90 then Some (c - 65)
      else if 97 \<le> c \<and> c \<le> 122 then Some (c - 71)
      else if 48 \<le> c \<and> c \<le> 57 then Some (c + 4)
      else if c = 43 then Some 62
      else if c = 47 then Some 63
      else None)"

fun b64_encode :: "nat list \<Rightarrow> nat list" where
  "b64_encode (a # b # c # rest) =
     [b64_char (a div 4), b64_char ((a mod 4) * 16 + b div 16),
      b64_char ((b mod 16) * 4 + c div 64), b64_char (c mod 64)] @ b64_encode rest"
| "b64_encode [a, b] =
     [b64_char (a div 4), b64_char ((a mod 4) * 16 + b div 16), b64_char ((b mod 16) * 4), 61]"
| "b64_encode [a] = [b64_char (a div 4), b64_char ((a mod 4) * 16), 61, 61]"
| "b64_encode [] = []"

text \<open>\<open>btoa\<close> throws on a code unit above U+00FF and encodes the others as bytes.\<close>

definition btoa :: "jsstring \<Rightarrow> exn + jsstring" where
  "btoa s = (if \<exists>u \<in> set s. 255 < u then Inl InvalidCharacterError else Inr (b64_encode s))"

text \<open>
  Sextets to bytes. A remainder of two sextets gives one byte and of three gives two,
  the bits left over being dropped; a remainder of one does not reach this function.
\<close>

fun b64_decode :: "nat list \<Rightarrow> nat list" where
  "b64_decode (p # q # r # s # rest) =
     [p * 4 + q div 16, (q mod 16) * 16 + r div 4, (r mod 4) * 64 + s] @ b64_decode rest"
| "b64_decode [p, q, r] = [p * 4 + q div 16, (q mod 16) * 16 + r div 4]"
| "b64_decode [p, q] = [p * 4 + q div 16]"
| "b64_decode [p] = []"
| "b64_decode [] = []"

definition is_ascii_whitespace :: "nat \<Rightarrow> bool" where
  "is_ascii_whitespace c \<longleftrightarrow> c \<in> {9, 10, 12, 13, 32}"

text \<open>When the length is a multiple of four, one or two \<open>=\<close> at the end are removed.\<close>

definition strip_padding :: "jsstring \<Rightarrow> jsstring" where
  "strip_padding d =
     (if length d mod 4 = 0 \<and> d \<noteq> [] \<and> last d = 61
      then (if butlast d \<noteq> [] \<and> last (butlast d) = 61 then butlast (butlast d) else butlast d)
      else d)"

definition atob :: "jsstring \<Rightarrow> exn + jsstring" where
  "atob data =
     (let d = strip_padding (filter (\<lambda>c. \<not> is_ascii_whitespace c) data)
      in if length d mod 4 = 1 then Inl InvalidCharacterError
         else if \<exists>c \<in> set d. b64_index c = None then Inl InvalidCharacterError
         else Inr (b64_decode (map (\<lambda>c. the (b64_index c)) d)))"

subsection \<open>Percent-encoding of UTF-8\<close>

definition is_alnum :: "nat \<Rightarrow> bool" where
  "is_alnum c \<longleftrightarrow> (48 \<le> c \<and> c \<le> 57) \<or> (65 \<le> c \<and> c \<le> 90) \<or> (97 \<le> c \<and> c \<le> 122)"

text \<open>The characters \<open>encodeURIComponent\<close> leaves alone: letters, digits and \<^verbatim>\<open>-_.!~*'()\<close>.\<close>

definition uri_unreserved :: "nat \<Rightarrow> bool" where
  "uri_unreserved c \<longleftrightarrow> is_alnum c \<or> c \<in> {45, 95, 46, 33, 126, 42, 39, 40, 41}"

definition is_lead :: "nat \<Rightarrow> bool" where
  "is_lead c \<longleftrightarrow> 55296 \<le> c \<and> c \<le> 56319"

definition is_trail :: "nat \<Rightarrow> bool" where
  "is_trail c \<longleftrightarrow> 56320 \<le> c \<and> c \<le> 57343"

definition pair_cp :: "nat \<Rightarrow> nat \<Rightarrow> nat" where
  "pair_cp hi lo = (hi - 55296) * 1024 + (lo - 56320) + 65536"

definition utf16 :: "nat \<Rightarrow> nat list" where
  "utf16 cp =
     (if cp < 65536 then [cp]
      else [55296 + (cp - 65536) div 1024, 56320 + (cp - 65536) mod 1024])"

definition utf8 :: "nat \<Rightarrow> nat list" where
  "utf8 cp =
     (if cp < 128 then [cp]
      else if cp < 2048 then [192 + cp div 64, 128 + cp mod 64]
      else if cp < 65536 then [224 + cp div 4096, 128 + (cp div 64) mod 64, 128 + cp mod 64]
      else [240 + cp div 262144, 128 + (cp div 4096) mod 64, 128 + (cp div 64) mod 64,
            128 + cp mod 64])"

definition hex_upper :: "nat \<Rightarrow> nat" where
  "hex_upper d = (if d < 10 then 48 + d else 55 + d)"

definition pct :: "nat \<Rightarrow> nat list" where
  "pct b = [37, hex_upper (b div 16), hex_upper (b mod 16)]"

text \<open>Encode: \<open>None\<close> is the URIError thrown at a surrogate without its partner.\<close>

fun encode_units :: "nat list \<Rightarrow> nat list option" where
  "encode_units [] = Some []"
| "encode_units (c # cs) =
     (if uri_unreserved c then map_option (\<lambda>r. c # r) (encode_units cs)
      else if is_lead c then
        (case cs of
           [] \<Rightarrow> None
         | d # ds \<Rightarrow>
             if is_trail d
             then map_option (\<lambda>r. concat (map pct (utf8 (pair_cp c d))) @ r) (encode_units ds)
             else None)
      else if is_trail c then None
      else map_option (\<lambda>r. concat (map pct (utf8 c)) @ r) (encode_units cs))"

definition encodeURIComponent :: "jsstring \<Rightarrow> exn + jsstring" where
  "encodeURIComponent s = (case encode_units s of None \<Rightarrow> Inl URIError | Some r \<Rightarrow> Inr r)"

definition hexval :: "nat \<Rightarrow> nat option" where
  "hexval c =
     (if 48 \<le> c \<and> c \<le> 57 then Some (c - 48)
      else if 65 \<le> c \<and> c \<le> 70 then Some (c - 55)
      else if 97 \<le> c \<and> c \<le> 102 then Some (c - 87)
      else None)"

text \<open>
  Decode reads the text from left to right: a \<open>%\<close> must be followed by two hexadecimal
  digits and stands for an octet, any other code unit stands for itself; an octet below
  128 is a character, a higher one must start a well-formed UTF-8 sequence made of
  octets. The model does it in two passes over the same positions; every failure is a
  URIError, so that the order in which they are met cannot be seen.
\<close>

datatype token = Lit nat | Oct nat

fun pct_tokens :: "nat list \<Rightarrow> token list option" where
  "pct_tokens [] = Some []"
| "pct_tokens (c # cs) =
     (if c = 37 then
        (case cs of
           h1 # h2 # rest \<Rightarrow>
             (case (hexval h1, hexval h2) of
                (Some a, Some b) \<Rightarrow> map_option (\<lambda>r. Oct (16 * a + b) # r) (pct_tokens rest)
              | _ \<Rightarrow> None)
         | _ \<Rightarrow> None)
      else map_option (\<lambda>r. Lit c # r) (pct_tokens cs))"

definition is_cont :: "nat \<Rightarrow> bool" where
  "is_cont b \<longleftrightarrow> 128 \<le> b \<and> b \<le> 191"

fun utf8_units :: "token list \<Rightarrow> nat list option" where
  "utf8_units [] = Some []"
| "utf8_units (Lit c # ts) = map_option (\<lambda>r. c # r) (utf8_units ts)"
| "utf8_units (Oct b # ts) =
     (if b < 128 then map_option (\<lambda>r. b # r) (utf8_units ts)
      else if b < 192 \<or> 248 \<le> b then None
      else if b < 224 then
        (case ts of
           Oct b1 # r \<Rightarrow>
             (let cp = (b - 192) * 64 + (b1 - 128)
              in if is_cont b1 \<and> 128 \<le> cp
                 then map_option (\<lambda>u. utf16 cp @ u) (utf8_units r) else None)
         | _ \<Rightarrow> None)
      else if b < 240 then
        (case ts of
           Oct b1 # Oct b2 # r \<Rightarrow>
             (let cp = (b - 224) * 4096 + (b1 - 128) * 64 + (b2 - 128)
              in if is_cont b1 \<and> is_cont b2 \<and> 2048 \<le> cp \<and> \<not> (55296 \<le> cp \<and> cp \<le> 57343)
                 then map_option (\<lambda>u. utf16 cp @ u) (utf8_units r) else None)
         | _ \<Rightarrow> None)
      else
        (case ts of
           Oct b1 # Oct b2 # Oct b3 # r \<Rightarrow>
             (let cp = (b - 240) * 262144 + (b1 - 128) * 4096 + (b2 - 128) * 64 + (b3 - 128)
              in if is_cont b1 \<and> is_cont b2 \<and> is_cont b3 \<and> 65536 \<le> cp \<and> cp \<le> 1114111
                 then map_option (\<lambda>u. utf16 cp @ u) (utf8_units r) else None)
         | _ \<Rightarrow> None))"

definition decodeURIComponent :: "jsstring \<Rightarrow> exn + jsstring" where
  "decodeURIComponent s =
     (case pct_tokens s of
        None \<Rightarrow> Inl URIError
      | Some ts \<Rightarrow> (case utf8_units ts of None \<Rightarrow> Inl URIError | Some r \<Rightarrow> Inr r))"

subsection \<open>JSON text\<close>

definition hex4 :: "nat \<Rightarrow> jsstring" where
  "hex4 c = [digit_char (c div 4096), digit_char ((c div 256) mod 16),
            digit_char ((c div 16) mod 16), digit_char (c mod 16)]"

text \<open>\<open>\uXXXX\<close>, with lower-case digits.\<close>

definition unicode_escape :: "nat \<Rightarrow> jsstring" where
  "unicode_escape c = [92, 117] @ hex4 c"

text \<open>
  QuoteJSONString without the quotes: the short escapes, \<open>\uXXXX\<close> for the other control
  characters and for a surrogate without its partner, and every other code unit as it is.
\<close>

fun quote_units :: "nat list \<Rightarrow> nat list" where
  "quote_units [] = []"
| "quote_units (c # cs) =
     (if c = 8 then [92, 98] @ quote_units cs
      else if c = 9 then [92, 116] @ quote_units cs
      else if c = 10 then [92, 110] @ quote_units cs
      else if c = 12 then [92, 102] @ quote_units cs
      else if c = 13 then [92, 114] @ quote_units cs
      else if c = 34 then [92, 34] @ quote_units cs
      else if c = 92 then [92, 92] @ quote_units cs
      else if c < 32 then unicode_escape c @ quote_units cs
      else if is_lead c then
        (case cs of
           [] \<Rightarrow> unicode_escape c
         | d # ds \<Rightarrow>
             if is_trail d then c # d # quote_units ds
             else unicode_escape c @ quote_units cs)
      else if is_trail c then unicode_escape c @ quote_units cs
      else c # quote_units cs)"

definition quote_json :: "jsstring \<Rightarrow> jsstring" where
  "quote_json s = [34] @ quote_units s @ [34]"

text \<open>
  Number to text. An integer is its decimal digits, which is what the platform gives
  below \<open>10\<^sup>2\<^sup>1\<close>. For another number the platform gives the shortest digits that
  identify the double; the model gives the digits of the exact value, twenty places at
  most.
\<close>

fun frac_digits :: "nat \<Rightarrow> rat \<Rightarrow> nat list" where
  "frac_digits 0 r = []"
| "frac_digits (Suc n) r =
     (if r = 0 then []
      else digit_char (nat \<lfloor>r * 10\<rfloor>) # frac_digits n (r * 10 - of_int \<lfloor>r * 10\<rfloor>))"

definition number_to_string :: "rat \<Rightarrow> jsstring" where
  "number_to_string q =
     (if q < 0 then [45] else []) @ decimal (nat \<lfloor>\<bar>q\<bar>\<rfloor>) @
     (if \<bar>q\<bar> = of_int \<lfloor>\<bar>q\<bar>\<rfloor> then [] else 46 # frac_digits 20 (\<bar>q\<bar> - of_int \<lfloor>\<bar>q\<bar>\<rfloor>))"

fun join :: "'a list \<Rightarrow> 'a list list \<Rightarrow> 'a list" where
  "join sep [] = []"
| "join sep [x] = x"
| "join sep (x # y # ys) = x @ sep @ join sep (y # ys)"

text \<open>
  \<open>JSON.stringify\<close> of a value made of null, booleans, numbers, strings, arrays and
  plain objects. \<open>undefined\<close> is written \<open>null\<close> in an array and its property is left
  out of an object; at the top the platform returns \<open>undefined\<close> for it, which the
  program never asks for, and the model gives it the text of the array case.
\<close>

fun JSON_stringify :: "jsval \<Rightarrow> jsstring" where
  "JSON_stringify JUndefined = js ''null''"
| "JSON_stringify JNull = js ''null''"
| "JSON_stringify (JBool b) = (if b then js ''true'' else js ''false'')"
| "JSON_stringify (JNum q) = number_to_string q"
| "JSON_stringify (JStr s) = quote_json s"
| "JSON_stringify (JArr xs) = [91] @ join [44] (map JSON_stringify xs) @ [93]"
| "JSON_stringify (JObj ps) =
     [123] @
     join [44] (map (\<lambda>p. quote_json (fst p) @ [58] @ JSON_stringify (snd p))
                    (filter (\<lambda>p. snd p \<noteq> JUndefined) ps)) @
     [125]"

text \<open>\<open>JSON.parse\<close>: white space, literals, numbers, strings, arrays, objects.\<close>

definition is_json_ws :: "nat \<Rightarrow> bool" where
  "is_json_ws c \<longleftrightarrow> c \<in> {9, 10, 13, 32}"

definition skip_ws :: "nat list \<Rightarrow> nat list" where
  "skip_ws cs = dropWhile is_json_ws cs"

definition is_digit :: "nat \<Rightarrow> bool" where
  "is_digit c \<longleftrightarrow> 48 \<le> c \<and> c \<le> 57"

definition digits_value :: "nat list \<Rightarrow> nat" where
  "digits_value ds = foldl (\<lambda>a d. a * 10 + (d - 48)) 0 ds"

definition escape_char :: "nat \<Rightarrow> nat option" where
  "escape_char e =
     (if e = 34 then Some 34 else if e = 92 then Some 92 else if e = 47 then Some 47
      else if e = 98 then Some 8 else if e = 102 then Some 12 else if e = 110 then Some 10
      else if e = 114 then Some 13 else if e = 116 then Some 9 else None)"

text \<open>The characters of a string after its opening quote, and what follows the closing one.\<close>

fun parse_string_body :: "nat list \<Rightarrow> (jsstring \<times> nat list) option" where
  "parse_string_body [] = None"
| "parse_string_body (c # cs) =
     (if c = 34 then Some ([], cs)
      else if c = 92 then
        (case cs of
           [] \<Rightarrow> None
         | e # r \<Rightarrow>
             if e = 117 then
               (case r of
                  h1 # h2 # h3 # h4 # r' \<Rightarrow>
                    (case (hexval h1, hexval h2, hexval h3, hexval h4) of
                       (Some a, Some b, Some c', Some d) \<Rightarrow>
                         map_option (\<lambda>(s, rest). ((a * 4096 + b * 256 + c' * 16 + d) # s, rest))
                                    (parse_string_body r')
                     | _ \<Rightarrow> None)
                | _ \<Rightarrow> None)
             else
               (case escape_char e of
                  None \<Rightarrow> None
                | Some u \<Rightarrow> map_option (\<lambda>(s, rest). (u # s, rest)) (parse_string_body r)))
      else if c < 32 then None
      else map_option (\<lambda>(s, rest). (c # s, rest)) (parse_string_body cs))"

text \<open>The integer part of a number: \<open>0\<close>, or digits that do not start with \<open>0\<close>.\<close>

definition int_part :: "nat list \<Rightarrow> (nat list \<times> nat list) option" where
  "int_part cs =
     (case cs of
        [] \<Rightarrow> None
      | c # r \<Rightarrow>
          if c = 48 then Some ([48], r)
          else if is_digit c then Some (takeWhile is_digit cs, dropWhile is_digit cs)
          else None)"

text \<open>The fraction: nothing, or a point and at least one digit.\<close>

definition frac_part :: "nat list \<Rightarrow> (nat list \<times> nat list) option" where
  "frac_part cs =
     (case cs of
        [] \<Rightarrow> Some ([], cs)
      | c # r \<Rightarrow>
          if c = 46 then
            (if takeWhile is_digit r = [] then None
             else Some (takeWhile is_digit r, dropWhile is_digit r))
          else Some ([], cs))"

text \<open>The exponent: nothing, or \<open>e\<close> or \<open>E\<close>, a sign if any, and at least one digit.\<close>

definition exp_part :: "nat list \<Rightarrow> (int \<times> nat list) option" where
  "exp_part cs =
     (case cs of
        [] \<Rightarrow> Some (0, cs)
      | c # r \<Rightarrow>
          if c = 101 \<or> c = 69 then
            (let neg = (r \<noteq> [] \<and> hd r = 45);
                 r' = (if r \<noteq> [] \<and> (hd r = 45 \<or> hd r = 43) then tl r else r)
             in if takeWhile is_digit r' = [] then None
                else Some ((if neg then - 1 else 1) * int (digits_value (takeWhile is_digit r')),
                           dropWhile is_digit r'))
          else Some (0, cs))"

definition parse_number :: "nat list \<Rightarrow> (rat \<times> nat list) option" where
  "parse_number cs =
     (let neg = (cs \<noteq> [] \<and> hd cs = 45);
          cs1 = (if neg then tl cs else cs)
      in case int_part cs1 of
           None \<Rightarrow> None
         | Some (ds, r1) \<Rightarrow>
             (case frac_part r1 of
                None \<Rightarrow> None
              | Some (fs, r2) \<Rightarrow>
                  (case exp_part r2 of
                     None \<Rightarrow> None
                   | Some (e, r3) \<Rightarrow>
                       Some ((if neg then - 1 else 1)
                               * (of_nat (digits_value ds)
                                  + of_nat (digits_value fs) / 10 ^ length fs)
                               * (if e < 0 then 1 / 10 ^ nat (- e) else 10 ^ nat e),
                             r3))))"

text \<open>The properties of an object in the order of the text; a key met again keeps its
  place and takes the later value.\<close>

definition build_object :: "(jsstring \<times> jsval) list \<Rightarrow> obj" where
  "build_object ps = fold (\<lambda>p ob. obj_set (fst p) (snd p) ob) ps []"

definition literal :: "string \<Rightarrow> jsval \<Rightarrow> nat list \<Rightarrow> (jsval \<times> nat list) option" where
  "literal w v cs = (if take (length w) cs = js w then Some (v, drop (length w) cs) else None)"

lemma skip_ws_length: "length (skip_ws cs) \<le> length cs"
  by (simp add: skip_ws_def length_dropWhile_le)

lemma skip_ws_Cons_length: "skip_ws cs = c # r \<Longrightarrow> length r < length cs"
  using skip_ws_length [of cs] by simp

text \<open>
  A value, the elements of an array after its bracket, and the members of an object
  after its brace. Each returns what it has read and the rest of the text. The tests on
  the length of the rest always succeed, since every value takes at least one
  character; they are what makes the recursion end.
\<close>

function parse_value :: "nat list \<Rightarrow> (jsval \<times> nat list) option"
  and parse_elements :: "nat list \<Rightarrow> (jsval list \<times> nat list) option"
  and parse_members :: "nat list \<Rightarrow> ((jsstring \<times> jsval) list \<times> nat list) option"
where
  "parse_value cs =
     (case skip_ws cs of
        [] \<Rightarrow> None
      | c # r \<Rightarrow>
          if c = 123 then
            (case skip_ws r of
               [] \<Rightarrow> None
             | c' # r' \<Rightarrow>
                 if c' = 125 then Some (JObj [], r')
                 else map_option (\<lambda>(ps, rest). (JObj (build_object ps), rest)) (parse_members r))
          else if c = 91 then
            (case skip_ws r of
               [] \<Rightarrow> None
             | c' # r' \<Rightarrow>
                 if c' = 93 then Some (JArr [], r')
                 else map_option (\<lambda>(vs, rest). (JArr vs, rest)) (parse_elements r))
          else if c = 34 then map_option (\<lambda>(s, rest). (JStr s, rest)) (parse_string_body r)
          else if c = 116 then literal ''true'' (JBool True) (c # r)
          else if c = 102 then literal ''false'' (JBool False) (c # r)
          else if c = 110 then literal ''null'' JNull (c # r)
          else if c = 45 \<or> is_digit c
          then map_option (\<lambda>(q, rest). (JNum q, rest)) (parse_number (c # r))
          else None)"
| "parse_elements cs =
     (case parse_value cs of
        None \<Rightarrow> None
      | Some (v, rest) \<Rightarrow>
          if length rest < length cs then
            (case skip_ws rest of
               [] \<Rightarrow> None
             | c # r \<Rightarrow>
                 if c = 44 then map_option (\<lambda>(vs, rest'). (v # vs, rest')) (parse_elements r)
                 else if c = 93 then Some ([v], r)
                 else None)
          else None)"
| "parse_members cs =
     (case skip_ws cs of
        [] \<Rightarrow> None
      | c # r \<Rightarrow>
          if c = 34 then
            (case parse_string_body r of
               None \<Rightarrow> None
             | Some (k, r1) \<Rightarrow>
                 (case skip_ws r1 of
                    [] \<Rightarrow> None
                  | c1 # r2 \<Rightarrow>
                      if c1 = 58 \<and> length r2 < length cs then
                        (case parse_value r2 of
                           None \<Rightarrow> None
                         | Some (v, r3) \<Rightarrow>
                             if length r3 < length cs then
                               (case skip_ws r3 of
                                  [] \<Rightarrow> None
                                | c3 # r4 \<Rightarrow>
                                    if c3 = 44
                                    then map_option (\<lambda>(ps, rest). ((k, v) # ps, rest))
                                                    (parse_members r4)
                                    else if c3 = 125 then Some ([(k, v)], r4)
                                    else None)
                             else None)
                      else None))
          else None)"
  by pat_completeness auto

termination
  apply (relation "measure (\<lambda>x. case x of Inl cs \<Rightarrow> 2 * length cs
                                | Inr (Inl cs) \<Rightarrow> 2 * length cs + 1
                                | Inr (Inr cs) \<Rightarrow> 2 * length cs + 1)")
  apply (auto dest: skip_ws_Cons_length)
  done

definition JSON_parse :: "jsstring \<Rightarrow> exn + jsval" where
  "JSON_parse s =
     (case parse_value s of
        None \<Rightarrow> Inl SyntaxError
      | Some (v, rest) \<Rightarrow> if skip_ws rest = [] then Inr v else Inl SyntaxError)"

section \<open>Loading and importing\<close>

text \<open>
  \<open>{...t}\<close>: the own enumerable properties of \<open>t\<close>. An array and a string have one
  per index; \<open>null\<close>, \<open>undefined\<close>, a number and a boolean have none.
\<close>

fun index_entries :: "nat \<Rightarrow> jsval list \<Rightarrow> obj" where
  "index_entries i [] = []"
| "index_entries i (x # xs) = (decimal i, x) # index_entries (Suc i) xs"

fun spread :: "jsval \<Rightarrow> obj" where
  "spread (JObj ps) = ps"
| "spread (JArr xs) = index_entries 0 xs"
| "spread (JStr s) = index_entries 0 (map (\<lambda>u. JStr [u]) s)"
| "spread _ = []"

text \<open>
  \<open>t.k\<close> for the keys the program reads (\<open>id\<close>, \<open>createdAt\<close>, \<open>isCompleted\<close>), which no
  array, string, number or boolean has: a TypeError on \<open>null\<close> and \<open>undefined\<close>.
\<close>

fun get_prop :: "jsval \<Rightarrow> jsstring \<Rightarrow> exn + jsval" where
  "get_prop JUndefined k = Inl TypeError"
| "get_prop JNull k = Inl TypeError"
| "get_prop (JObj ps) k = Inr (obj_get ps k)"
| "get_prop _ k = Inr JUndefined"

text \<open>
  What the calls made for the element at a given index of a loaded or imported array
  read from their surroundings.
\<close>

record world =
  idEnvAt :: "nat \<Rightarrow> idEnv"
  nowAt :: "nat \<Rightarrow> int"

text \<open>
  \<open>Array.prototype.map\<close> with a callback that may throw and that reads and writes the
  counter: the first exception ends the loop, the counter keeps what was done to it.
\<close>

fun array_map ::
  "(nat \<Rightarrow> 'a \<Rightarrow> nat \<Rightarrow> (exn + 'b) \<times> nat) \<Rightarrow> nat \<Rightarrow> 'a list \<Rightarrow> nat \<Rightarrow> (exn + 'b list) \<times> nat"
where
  "array_map f i [] c = (Inr [], c)"
| "array_map f i (x # xs) c =
     (case f i x c of
        (Inl e, c') \<Rightarrow> (Inl e, c')
      | (Inr y, c') \<Rightarrow>
          (case array_map f (Suc i) xs c' of
             (Inl e, c'') \<Rightarrow> (Inl e, c'')
           | (Inr ys, c'') \<Rightarrow> (Inr (y # ys), c'')))"

text \<open>\<open>t.id || generateId()\<close>\<close>

definition id_or_fresh :: "idEnv \<Rightarrow> jsval \<Rightarrow> nat \<Rightarrow> jsval \<times> nat" where
  "id_or_fresh e v c =
     (if truthy v then (v, c) else (let (g, c') = generateId e c in (JStr g, c')))"

text \<open>
  The callback of the load:
  \<^verbatim>\<open>t => ({ ...t, id: t.id || generateId(), createdAt: t.createdAt || Date.now() })\<close>
\<close>

definition migrateLoaded :: "world \<Rightarrow> nat \<Rightarrow> jsval \<Rightarrow> nat \<Rightarrow> (exn + obj) \<times> nat" where
  "migrateLoaded w i t c =
     (case get_prop t (js ''id'') of
        Inl e \<Rightarrow> (Inl e, c)
      | Inr tid \<Rightarrow>
          let (newId, c') = id_or_fresh (idEnvAt w i) tid c
          in case get_prop t (js ''createdAt'') of
               Inl e \<Rightarrow> (Inl e, c')
             | Inr tc \<Rightarrow>
                 (Inr (obj_set (js ''createdAt'')
                         (if truthy tc then tc else JNum (of_int (nowAt w i)))
                         (obj_set (js ''id'') newId (spread t))), c'))"

text \<open>
  The callback of the import:
  \<^verbatim>\<open>(t: any) => ({ ...t, id: t.id || generateId(), isCompleted: !!t.isCompleted })\<close>
\<close>

definition fixImported :: "world \<Rightarrow> nat \<Rightarrow> jsval \<Rightarrow> nat \<Rightarrow> (exn + obj) \<times> nat" where
  "fixImported w i t c =
     (case get_prop t (js ''id'') of
        Inl e \<Rightarrow> (Inl e, c)
      | Inr tid \<Rightarrow>
          let (newId, c') = id_or_fresh (idEnvAt w i) tid c
          in case get_prop t (js ''isCompleted'') of
               Inl e \<Rightarrow> (Inl e, c')
             | Inr tc \<Rightarrow>
                 (Inr (obj_set (js ''isCompleted'') (JBool (truthy tc))
                         (obj_set (js ''id'') newId (spread t))), c'))"

text \<open>
  The initial value of the collection:
  \<^verbatim>\<open>try {
  const saved = localStorage.getItem('sisterSyncTasks');
  if (!saved) return [];
  const parsed = JSON.parse(saved);
  if (!Array.isArray(parsed)) return [];
  return parsed.map(t => ({ ... }));
} catch (e) { console.error(...); return []; }\<close>
  \<open>stored\<close> is what \<open>getItem\<close> does: it throws, or returns \<open>null\<close> or a text.
\<close>

definition loadTasks :: "world \<Rightarrow> exn + jsstring option \<Rightarrow> nat \<Rightarrow> obj list \<times> nat" where
  "loadTasks w stored c =
     (case stored of
        Inl e \<Rightarrow> ([], c)
      | Inr None \<Rightarrow> ([], c)
      | Inr (Some saved) \<Rightarrow>
          if \<not> truthy (JStr saved) then ([], c)
          else
            (case JSON_parse saved of
               Inl e \<Rightarrow> ([], c)
             | Inr parsed \<Rightarrow>
                 (case parsed of
                    JArr xs \<Rightarrow>
                      (case array_map (migrateLoaded w) 0 xs c of
                         (Inl e, c') \<Rightarrow> ([], c')
                       | (Inr ts, c') \<Rightarrow> (ts, c'))
                  | _ \<Rightarrow> ([], c))))"

text \<open>
  \<^verbatim>\<open>const getExportCode = () => {
  try { return btoa(encodeURIComponent(JSON.stringify(tasks))); }
  catch (e) { return "Error generating code"; }
};\<close>
\<close>

definition getExportCode :: "obj list \<Rightarrow> jsstring" where
  "getExportCode ts =
     (case encodeURIComponent (JSON_stringify (JArr (map JObj ts))) of
        Inl e \<Rightarrow> js ''Error generating code''
      | Inr escaped \<Rightarrow>
          (case btoa escaped of
             Inl e \<Rightarrow> js ''Error generating code''
           | Inr code \<Rightarrow> code))"

definition import_failed :: "app \<Rightarrow> app" where
  "import_failed s =
     s\<lparr> syncMessage := Some (js ''Invalid code. Please check and try again.'', js ''error'') \<rparr>"

text \<open>
  \<^verbatim>\<open>const handleImport = () => {
  if (!importCode.trim()) return;
  try {
    const jsonStr = decodeURIComponent(atob(importCode.trim()));
    const importedData = JSON.parse(jsonStr);
    if (Array.isArray(importedData)) {
      const validTasks = importedData.map((t: any) => ({ ... }));
      setTasks(validTasks);
      setSyncMessage({ text: "Tasks updated successfully!", type: 'success' });
      setImportCode('');
      setTimeout(() => { setSyncMessage(null); setIsSettingsOpen(false); }, 1500);
    } else { throw new Error("Not a list"); }
  } catch (e) {
    setSyncMessage({ text: "Invalid code. Please check and try again.", type: 'error' });
  }
};\<close>
  The state is the one right after the call; the timer that clears the message later
  is not part of it.
\<close>

definition handleImport :: "world \<Rightarrow> app \<Rightarrow> app" where
  "handleImport w s =
     (if \<not> truthy (JStr (trim (importCode s))) then s
      else
        case atob (trim (importCode s)) of
          Inl e \<Rightarrow> import_failed s
        | Inr bytes \<Rightarrow>
            (case decodeURIComponent bytes of
               Inl e \<Rightarrow> import_failed s
             | Inr jsonStr \<Rightarrow>
                 (case JSON_parse jsonStr of
                    Inl e \<Rightarrow> import_failed s
                  | Inr importedData \<Rightarrow>
                      (case importedData of
                         JArr xs \<Rightarrow>
                           (case array_map (fixImported w) 0 xs (idCounter s) of
                              (Inl e, c) \<Rightarrow> import_failed (s\<lparr> idCounter := c \<rparr>)
                            | (Inr validTasks, c) \<Rightarrow>
                                s\<lparr> tasks := validTasks,
                                   idCounter := c,
                                   syncMessage := Some (js ''Tasks updated successfully!'',
                                                        js ''success''),
                                   importCode := [] \<rparr>)
                       | _ \<Rightarrow> import_failed s))))"

text \<open>
  The stages of decoding a sync code, as the specification names them: base 64, percent
  escapes, JSON syntax, and the top-level value being an array.
\<close>

definition decode :: "jsstring \<Rightarrow> exn + jsval list" where
  "decode code =
     (case atob code of
        Inl e \<Rightarrow> Inl e
      | Inr bytes \<Rightarrow>
          (case decodeURIComponent bytes of
             Inl e \<Rightarrow> Inl e
           | Inr jsonStr \<Rightarrow>
               (case JSON_parse jsonStr of
                  Inl e \<Rightarrow> Inl e
                | Inr v \<Rightarrow> (case v of JArr xs \<Rightarrow> Inr xs | _ \<Rightarrow> Inl NotAList))))"



definition legacy_text :: jsstring where
  \<open>legacy_text = js ''[{"id":"a","title":"X","isCompleted":1}]''\<close>

definition legacy_code :: jsstring where
  "legacy_code = js ''JTVCJTdCJTIyaWQlMjIlM0ElMjJhJTIyJTJDJTIydGl0bGUlMjIlM0ElMjJYJTIyJTJDJTIyaXNDb21wbGV0ZWQlMjIlM0ExJTdEJTVE''"

definition legacy_task :: obj where
  "legacy_task = [(js ''id'', JStr (js ''a'')), (js ''title'', JStr (js ''X'')),
                  (js ''isCompleted'', JNum 1)]"

section \<open>The persistence effect\<close>

text \<open>
  \<^verbatim>\<open>const [saveStatus, setSaveStatus] = useState<'saved' | 'saving' | 'error'>('saved');
useEffect(() => {
  const saveTasks = () => {
    try {
      setSaveStatus('saving');
      localStorage.setItem('sisterSyncTasks', JSON.stringify(tasks));
      setTimeout(() => setSaveStatus('saved'), 500);
    } catch (e) {
      console.error(...); setSaveStatus('error'); alert(...);
    }
  };
  const timeoutId = setTimeout(saveTasks, 500);
  return () => clearTimeout(timeoutId);
}, [tasks]);\<close>
  Time is counted in milliseconds. The page holds the pending timers; a timer is the
  callback it will run, the time it is due and the id \<open>setTimeout\<close> returned for it.
  The two callbacks the program registers are \<open>saveTasks\<close>, with the collection of the
  render that registered it, and the one that shows \<open>saved\<close>.
\<close>

datatype status = Saved | Saving | Error

datatype callback = SaveTasks "obj list" | ShowSaved

record timer =
  timerId :: nat
  due :: nat
  callback :: callback

record page =
  clock :: nat
  timers :: "timer list"
  nextTimerId :: nat
  cleanup :: "nat option"
  saveStatus :: status
  storage :: "jsstring option"
  setItemCalls :: "jsstring list"

text \<open>
  \<open>cleanup\<close> is the \<open>timeoutId\<close> that the function returned by the effect will clear,
  \<open>storage\<close> the text under the key, and \<open>setItemCalls\<close> every text that was passed to
  \<open>setItem\<close>, in order, whether the call returned or threw.
\<close>

definition setTimeout :: "callback \<Rightarrow> nat \<Rightarrow> page \<Rightarrow> nat \<times> page" where
  "setTimeout cb delay p =
     (nextTimerId p,
      p\<lparr> timers := timers p @ [\<lparr> timerId = nextTimerId p, due = clock p + delay, callback = cb \<rparr>],
         nextTimerId := nextTimerId p + 1 \<rparr>)"

definition clearTimeout :: "nat \<Rightarrow> page \<Rightarrow> page" where
  "clearTimeout i p = p\<lparr> timers := filter (\<lambda>x. timerId x \<noteq> i) (timers p) \<rparr>"

text \<open>
  A render with a new collection: the cleanup of the previous effect runs, then the
  effect.
\<close>

definition tasks_changed :: "obj list \<Rightarrow> page \<Rightarrow> page" where
  "tasks_changed ts p =
     (let p1 = (case cleanup p of None \<Rightarrow> p | Some i \<Rightarrow> clearTimeout i p);
          (i, p2) = setTimeout (SaveTasks ts) 500 p1
      in p2\<lparr> cleanup := Some i \<rparr>)"

text \<open>The first render, with the loaded collection and what the storage holds.\<close>

definition mount :: "obj list \<Rightarrow> jsstring option \<Rightarrow> page" where
  "mount ts stored =
     tasks_changed ts
       \<lparr> clock = 0, timers = [], nextTimerId = 0, cleanup = None, saveStatus = Saved,
         storage = stored, setItemCalls = [] \<rparr>"

text \<open>
  \<open>saveTasks\<close>. Whether a call of \<open>setItem\<close> returns or throws is for the storage to
  decide: \<open>ok k\<close> tells it for the call number \<open>k\<close>, counted from 0.
\<close>

definition saveTasks :: "(nat \<Rightarrow> bool) \<Rightarrow> obj list \<Rightarrow> page \<Rightarrow> page" where
  "saveTasks ok ts p =
     (let text = JSON_stringify (JArr (map JObj ts));
          p1 = p\<lparr> saveStatus := Saving, setItemCalls := setItemCalls p @ [text] \<rparr>
      in if ok (length (setItemCalls p))
         then snd (setTimeout ShowSaved 500 (p1\<lparr> storage := Some text \<rparr>))
         else p1\<lparr> saveStatus := Error \<rparr>)"

fun run_callback :: "(nat \<Rightarrow> bool) \<Rightarrow> callback \<Rightarrow> page \<Rightarrow> page" where
  "run_callback ok (SaveTasks ts) p = saveTasks ok ts p"
| "run_callback ok ShowSaved p = p\<lparr> saveStatus := Saved \<rparr>"

text \<open>
  The timer to run next: the one due first and, among timers due at the same time, the
  one registered first, which is the one with the smaller id.
\<close>

definition before :: "timer \<Rightarrow> timer \<Rightarrow> bool" where
  "before x y \<longleftrightarrow> due x < due y \<or> (due x = due y \<and> timerId x < timerId y)"

fun earliest :: "timer list \<Rightarrow> timer option" where
  "earliest [] = None"
| "earliest (x # xs) =
     (case earliest xs of
        None \<Rightarrow> Some x
      | Some y \<Rightarrow> if before y x then Some y else Some x)"

text \<open>A timer fires: it leaves the list, the clock is at its time, its callback runs.\<close>

definition fire :: "(nat \<Rightarrow> bool) \<Rightarrow> timer \<Rightarrow> page \<Rightarrow> page" where
  "fire ok x p =
     run_callback ok (callback x)
       (p\<lparr> clock := max (clock p) (due x),
           timers := filter (\<lambda>y. timerId y \<noteq> timerId x) (timers p) \<rparr>)"

definition is_save :: "timer \<Rightarrow> bool" where
  "is_save x = (case callback x of SaveTasks ts \<Rightarrow> True | ShowSaved \<Rightarrow> False)"

definition weight :: "timer list \<Rightarrow> nat" where
  "weight xs = sum_list (map (\<lambda>x. if is_save x then 2 else 1) xs)"

lemma earliest_mem: "earliest xs = Some x \<Longrightarrow> x \<in> set xs"
  by (induction xs arbitrary: x) (auto split: option.splits if_splits)

lemma weight_filter: "weight (filter P xs) \<le> weight xs"
  by (induction xs) (auto simp: weight_def)

lemma weight_remove:
  "x \<in> set xs \<Longrightarrow>
   weight (filter (\<lambda>y. timerId y \<noteq> timerId x) xs) + (if is_save x then 2 else 1) \<le> weight xs"
proof (induction xs)
  case Nil
  then show ?case by simp
next
  case (Cons a xs)
  show ?case
  proof (cases "timerId a = timerId x")
    case True
    have "weight (filter (\<lambda>y. timerId y \<noteq> timerId x) xs) \<le> weight xs"
      by (rule weight_filter)
    moreover from True Cons have "a = x \<or> x \<in> set xs" by auto
    ultimately show ?thesis
      using True Cons by (auto simp: weight_def)
  next
    case False
    with Cons show ?thesis by (auto simp: weight_def)
  qed
qed

lemma weight_fire: "x \<in> set (timers p) \<Longrightarrow> weight (timers (fire ok x p)) < weight (timers p)"
  using weight_remove [of x "timers p"]
  by (cases "callback x")
     (auto simp: fire_def saveTasks_def setTimeout_def Let_def weight_def is_save_def)

text \<open>Time passes until \<open>t\<close>: the timers due by then fire in turn.\<close>

function run_timers :: "(nat \<Rightarrow> bool) \<Rightarrow> nat \<Rightarrow> page \<Rightarrow> page" where
  "run_timers ok t p =
     (case earliest (timers p) of
        None \<Rightarrow> p
      | Some x \<Rightarrow> if due x \<le> t then run_timers ok t (fire ok x p) else p)"
  by pat_completeness auto
termination
  by (relation "measure (\<lambda>(ok, t, p). weight (timers p))")
     (auto dest!: earliest_mem intro: weight_fire)

text \<open>What happens to the page: the collection changes, or time passes.\<close>

datatype event = SetTasks "obj list" | Wait nat

fun step :: "(nat \<Rightarrow> bool) \<Rightarrow> event \<Rightarrow> page \<Rightarrow> page" where
  "step ok (SetTasks ts) p = tasks_changed ts p"
| "step ok (Wait d) p = (run_timers ok (clock p + d) p)\<lparr> clock := clock p + d \<rparr>"

definition run :: "(nat \<Rightarrow> bool) \<Rightarrow> event list \<Rightarrow> page \<Rightarrow> page" where
  "run ok evs p = foldl (\<lambda>q e. step ok e q) p evs"

text \<open>
  A burst of changes, each with the time that passes after it, as events.
\<close>

definition burst_events :: "(obj list \<times> nat) list \<Rightarrow> event list" where
  "burst_events b = concat (map (\<lambda>c. [SetTasks (fst c), Wait (snd c)]) b)"

text \<open>
  What holds of the page at every moment: timer ids are below the next id and differ
  from each other, no timer is due later than 500 ms from now, a pending \<open>saveTasks\<close> is
  the one the cleanup will clear and comes after every pending \<open>saved\<close> timer, and the
  status is \<open>error\<close> exactly when the latest call of \<open>setItem\<close> threw, in which case no
  \<open>saved\<close> timer is pending.
\<close>

definition latest_threw :: "(nat \<Rightarrow> bool) \<Rightarrow> page \<Rightarrow> bool" where
  "latest_threw ok p \<longleftrightarrow> setItemCalls p \<noteq> [] \<and> \<not> ok (length (setItemCalls p) - 1)"

definition page_ok :: "(nat \<Rightarrow> bool) \<Rightarrow> page \<Rightarrow> bool" where
  "page_ok ok p \<longleftrightarrow>
     (\<forall>x \<in> set (timers p). timerId x < nextTimerId p \<and> due x \<le> clock p + 500)
     \<and> inj_on timerId (set (timers p))
     \<and> (\<forall>x \<in> set (timers p). is_save x \<longrightarrow>
           cleanup p = Some (timerId x)
           \<and> (\<forall>y \<in> set (timers p). \<not> is_save y \<longrightarrow> before y x))
     \<and> (saveStatus p = Error \<longleftrightarrow> latest_threw ok p)
     \<and> (latest_threw ok p \<longrightarrow> (\<forall>x \<in> set (timers p). is_save x))"

definition text_of :: "obj list \<Rightarrow> jsstring" where
  "text_of ts = JSON_stringify (JArr (map JObj ts))"

text \<open>Five changes, 100 ms apart, and then nothing for 500 ms.\<close>

definition five_changes :: "(obj list \<times> nat) list" where
  "five_changes =
     [([task_a], 100), ([task_b, task_a], 100), (toggleTask (js ''a'') [task_b, task_a], 100),
      (deleteTask (js ''a'') [task_b, task_a], 100), ([task_a, task_b], 500)]"

section \<open>The round trip of a sync code: auxiliary notions\<close>

text \<open>The sextets of a byte sequence and its padding, which \<open>b64_encode\<close> writes together.\<close>

fun sextets :: "nat list \<Rightarrow> nat list" where
  "sextets (a # b # c # rest) =
     [a div 4, (a mod 4) * 16 + b div 16, (b mod 16) * 4 + c div 64, c mod 64] @ sextets rest"
| "sextets [a, b] = [a div 4, (a mod 4) * 16 + b div 16, (b mod 16) * 4]"
| "sextets [a] = [a div 4, (a mod 4) * 16]"
| "sextets [] = []"

fun b64_pad :: "nat list \<Rightarrow> nat list" where
  "b64_pad (a # b # c # rest) = b64_pad rest"
| "b64_pad [a, b] = [61]"
| "b64_pad [a] = [61, 61]"
| "b64_pad [] = []"

text \<open>
  Well-formed UTF-16: code units below \<open>2\<^sup>1\<^sup>6\<close>, every leading surrogate followed by
  a trailing one and no trailing surrogate elsewhere.
\<close>

fun wf16 :: "nat list \<Rightarrow> bool" where
  "wf16 [] = True"
| "wf16 (c # cs) =
     (if is_lead c then (case cs of [] \<Rightarrow> False | d # ds \<Rightarrow> is_trail d \<and> wf16 ds)
      else \<not> is_trail c \<and> c < 65536 \<and> wf16 cs)"

section \<open>Properties of objects\<close>

lemma obj_get_set_same: "obj_get (obj_set k v t) k = v"
  by (induction t) auto

lemma obj_get_set_other: "k' \<noteq> k \<Longrightarrow> obj_get (obj_set k v t) k' = obj_get t k'"
  by (induction t) auto

lemma keys_obj_set:
  "map fst (obj_set k v t) = (if k \<in> set (map fst t) then map fst t else map fst t @ [k])"
  by (induction t) force+

lemma js_eq_iff [simp]: "js a = js b \<longleftrightarrow> a = b"
  unfolding js_def by (auto dest!: map_inj_on[where f = of_char] intro: inj_onI)

lemma js_Nil_iff [simp]: "js a = [] \<longleftrightarrow> a = []"
  by (simp add: js_def)

section \<open>Toggle and delete\<close>

lemma toggleTask_length: "length (toggleTask taskId prev) = length prev"
  by (simp add: toggleTask_def)

lemma toggleTask_nth:
  "i < length prev \<Longrightarrow>
   toggleTask taskId prev ! i =
     (if obj_get (prev ! i) (js ''id'') = JStr taskId
      then obj_set (js ''isCompleted'')
             (JBool (\<not> truthy (obj_get (prev ! i) (js ''isCompleted'')))) (prev ! i)
      else prev ! i)"
  by (simp add: toggleTask_def)

lemma toggleTask_absent:
  "\<forall>t \<in> set prev. obj_get t (js ''id'') \<noteq> JStr taskId \<Longrightarrow> toggleTask taskId prev = prev"
  by (induction prev) (auto simp: toggleTask_def)

text \<open>
  C4. For every collection and every id, toggle flips \<open>isCompleted\<close> of each task
  whose id is the given one (a boolean \<open>b\<close> becomes \<open>\<not> b\<close>; any other value becomes
  the negation of its truthiness), leaves every other field of that task as it was,
  leaves every task with another id as it was, and changes nothing when no task has
  that id.
\<close>

theorem toggleTask_flips_matching_only:
  "length (toggleTask taskId prev) = length prev
   \<and> (\<forall>i < length prev.
        (obj_get (prev ! i) (js ''id'') = JStr taskId \<longrightarrow>
           obj_get (toggleTask taskId prev ! i) (js ''isCompleted'')
             = JBool (\<not> truthy (obj_get (prev ! i) (js ''isCompleted'')))
           \<and> (\<forall>b. obj_get (prev ! i) (js ''isCompleted'') = JBool b \<longrightarrow>
                  obj_get (toggleTask taskId prev ! i) (js ''isCompleted'') = JBool (\<not> b))
           \<and> (\<forall>k. k \<noteq> js ''isCompleted'' \<longrightarrow>
                  obj_get (toggleTask taskId prev ! i) k = obj_get (prev ! i) k))
        \<and> (obj_get (prev ! i) (js ''id'') \<noteq> JStr taskId \<longrightarrow>
             toggleTask taskId prev ! i = prev ! i))
   \<and> ((\<forall>t \<in> set prev. obj_get t (js ''id'') \<noteq> JStr taskId) \<longrightarrow>
        toggleTask taskId prev = prev)"
proof (intro conjI allI impI)
  show "length (toggleTask taskId prev) = length prev"
    by (rule toggleTask_length)
next
  fix i assume i: "i < length prev" and m: "obj_get (prev ! i) (js ''id'') = JStr taskId"
  show "obj_get (toggleTask taskId prev ! i) (js ''isCompleted'')
          = JBool (\<not> truthy (obj_get (prev ! i) (js ''isCompleted'')))"
    using i m by (simp add: toggleTask_nth obj_get_set_same)
next
  fix i b assume i: "i < length prev" and m: "obj_get (prev ! i) (js ''id'') = JStr taskId"
    and b: "obj_get (prev ! i) (js ''isCompleted'') = JBool b"
  show "obj_get (toggleTask taskId prev ! i) (js ''isCompleted'') = JBool (\<not> b)"
    using i m b by (simp add: toggleTask_nth obj_get_set_same)
next
  fix i k assume i: "i < length prev" and m: "obj_get (prev ! i) (js ''id'') = JStr taskId"
    and k: "k \<noteq> js ''isCompleted''"
  show "obj_get (toggleTask taskId prev ! i) k = obj_get (prev ! i) k"
    using i m k by (simp add: toggleTask_nth obj_get_set_other)
next
  fix i assume "i < length prev" and "obj_get (prev ! i) (js ''id'') \<noteq> JStr taskId"
  then show "toggleTask taskId prev ! i = prev ! i"
    by (simp add: toggleTask_nth)
next
  assume "\<forall>t \<in> set prev. obj_get t (js ''id'') \<noteq> JStr taskId"
  then show "toggleTask taskId prev = prev"
    by (rule toggleTask_absent)
qed

theorem toggleTask_flips_matching_only_witness:
  "obj_get (toggleTask (js ''a'') [task_a, task_b] ! 0) (js ''isCompleted'') = JBool True
   \<and> obj_get (toggleTask (js ''a'') [task_a, task_b] ! 0) (js ''title'')
       = JStr (js ''Buy milk'')
   \<and> toggleTask (js ''a'') [task_a, task_b] ! 1 = task_b
   \<and> toggleTask (js ''zz'') [task_a, task_b] = [task_a, task_b]"
  using toggleTask_flips_matching_only [of "js ''a''" "[task_a, task_b]"]
        toggleTask_flips_matching_only [of "js ''zz''" "[task_a, task_b]"]
  by (simp add: task_a_def task_b_def nth_Cons' All_less_Suc2)

lemma deleteTask_subseq: "subseq (deleteTask taskId prev) prev"
  by (simp add: deleteTask_def)

text \<open>
  C9. Toggle keeps the length of the collection and the place of every task (at each
  position every field other than \<open>isCompleted\<close> reads as before). Delete removes every
  task whose id is the given one, not only the first, and keeps every other task, in
  the order they had.
\<close>

theorem toggle_delete_keep_order:
  "length (toggleTask taskId prev) = length prev
   \<and> (\<forall>k. k \<noteq> js ''isCompleted'' \<longrightarrow>
          map (\<lambda>t. obj_get t k) (toggleTask taskId prev) = map (\<lambda>t. obj_get t k) prev)
   \<and> (\<forall>t \<in> set (deleteTask taskId prev). obj_get t (js ''id'') \<noteq> JStr taskId)
   \<and> subseq (deleteTask taskId prev) prev
   \<and> (\<forall>ys. subseq ys prev \<and> (\<forall>t \<in> set ys. obj_get t (js ''id'') \<noteq> JStr taskId)
            \<longrightarrow> subseq ys (deleteTask taskId prev))"
proof (intro conjI allI impI ballI)
  show "length (toggleTask taskId prev) = length prev"
    by (rule toggleTask_length)
next
  fix k :: jsstring assume "k \<noteq> js ''isCompleted''"
  then show "map (\<lambda>t. obj_get t k) (toggleTask taskId prev) = map (\<lambda>t. obj_get t k) prev"
    by (simp add: toggleTask_def obj_get_set_other)
next
  fix t assume "t \<in> set (deleteTask taskId prev)"
  then show "obj_get t (js ''id'') \<noteq> JStr taskId"
    by (simp add: deleteTask_def)
next
  show "subseq (deleteTask taskId prev) prev"
    by (rule deleteTask_subseq)
next
  fix ys
  assume a: "subseq ys prev \<and> (\<forall>t \<in> set ys. obj_get t (js ''id'') \<noteq> JStr taskId)"
  then have f: "filter (\<lambda>t. obj_get t (js ''id'') \<noteq> JStr taskId) ys = ys"
    by (simp add: filter_id_conv)
  from a have "subseq (filter (\<lambda>t. obj_get t (js ''id'') \<noteq> JStr taskId) ys)
                      (filter (\<lambda>t. obj_get t (js ''id'') \<noteq> JStr taskId) prev)"
    by (intro subseq_filter) simp
  then show "subseq ys (deleteTask taskId prev)"
    unfolding deleteTask_def f .
qed

theorem toggle_delete_keep_order_witness:
  "map (\<lambda>t. obj_get t (js ''id'')) (toggleTask (js ''a'') [task_a, task_b, task_a])
     = [JStr (js ''a''), JStr (js ''b''), JStr (js ''a'')]
   \<and> deleteTask (js ''a'') [task_a, task_b, task_a] = [task_b]"
proof -
  have k: "js ''id'' \<noteq> js ''isCompleted''" by simp
  have d: "deleteTask (js ''a'') [task_a, task_b, task_a] = [task_b]"
    by (simp add: deleteTask_def task_a_def task_b_def)
  have s: "subseq [task_b] [task_a, task_b, task_a]" by simp
  from toggle_delete_keep_order [of "js ''a''" "[task_a, task_b, task_a]"] k d s
  show ?thesis by (simp add: task_a_def task_b_def)
qed

section \<open>The dashboard's figures\<close>






section \<open>The id generator: distinct ids\<close>

declare radix_digits.simps [simp del]

lemma radix_digits_lt: "2 \<le> b \<Longrightarrow> \<forall>d \<in> set (radix_digits b n). d < b"
proof (induction b n rule: radix_digits.induct)
  case (1 b n)
  then show ?case
    by (subst radix_digits.simps) auto
qed

lemma radix_digits_value: "2 \<le> b \<Longrightarrow> foldl (\<lambda>a d. a * b + d) 0 (radix_digits b n) = n"
proof (induction b n rule: radix_digits.induct)
  case (1 b n)
  then show ?case
    by (subst radix_digits.simps) auto
qed

lemma radix_digits_length: "2 \<le> b \<Longrightarrow> n < b ^ k \<Longrightarrow> 0 < k \<Longrightarrow> length (radix_digits b n) \<le> k"
proof (induction b n arbitrary: k rule: radix_digits.induct)
  case (1 b n)
  show ?case
  proof (cases "n < b")
    case True
    with 1 show ?thesis by (subst radix_digits.simps) simp
  next
    case False
    with 1 obtain k' where k: "k = Suc k'" by (cases k) auto
    from False 1 k have "0 < k'" by (cases k') auto
    moreover from 1 k have "n div b < b ^ k'"
      by (simp add: less_mult_imp_div_less mult.commute)
    ultimately have "length (radix_digits b (n div b)) \<le> k'"
      using 1 False by simp
    with False 1 k show ?thesis by (subst radix_digits.simps) simp
  qed
qed

lemma digit_char_inj: "a < 36 \<Longrightarrow> b < 36 \<Longrightarrow> digit_char a = digit_char b \<Longrightarrow> a = b"
  by (auto simp: digit_char_def split: if_splits)

lemma map_digit_char_inj:
  "\<forall>d \<in> set xs. d < 36 \<Longrightarrow> \<forall>d \<in> set ys. d < 36 \<Longrightarrow>
   map digit_char xs = map digit_char ys \<Longrightarrow> xs = ys"
proof (induction xs arbitrary: ys)
  case Nil
  then show ?case by simp
next
  case (Cons x xs)
  then obtain y ys' where "ys = y # ys'" by (cases ys) auto
  with Cons show ?case by (auto dest: digit_char_inj)
qed

lemma decimal_inj: "decimal a = decimal b \<Longrightarrow> a = b"
proof -
  assume e: "decimal a = decimal b"
  have "\<forall>d \<in> set (radix_digits 10 a). d < 36" "\<forall>d \<in> set (radix_digits 10 b). d < 36"
    using radix_digits_lt [of 10 a] radix_digits_lt [of 10 b] by auto
  with e have "radix_digits 10 a = radix_digits 10 b"
    unfolding decimal_def by (rule map_digit_char_inj [rotated 2])
  then have "foldl (\<lambda>a d. a * 10 + d) 0 (radix_digits 10 a)
           = foldl (\<lambda>a d. a * 10 + d) 0 (radix_digits 10 b)" by simp
  then show "a = b" by (simp add: radix_digits_value)
qed

lemma decimal_no_dash: "45 \<notin> set (decimal n)"
  using radix_digits_lt [of 10 n] by (auto simp: decimal_def digit_char_def)

lemma decimal_length: "n < 10000 \<Longrightarrow> length (decimal n) \<le> 4"
  using radix_digits_length [of 10 n 4] by (simp add: decimal_def)

lemma last_segment_dash:
  assumes "45 \<notin> set d"
  shows "last_segment (x @ 45 # d) = d"
proof -
  have "takeWhile (\<lambda>c. c \<noteq> 45) (rev d @ 45 # rev x) = rev d"
    using assms by (subst takeWhile_append2) auto
  then show ?thesis by (simp add: last_segment_def)
qed

lemma last_segment_fallback: "last_segment (fallback_id e c) = decimal c"
proof -
  have "fallback_id e c = (toString36 (now e) @ js ''-'' @ substring 2 8 (random36 e)) @ 45 # decimal c"
    by (simp add: fallback_id_def js_def)
  then show ?thesis by (simp only: last_segment_dash [OF decimal_no_dash])
qed

lemma last_segment_uuid:
  assumes "uuid_shaped u"
  shows "length (last_segment u) = 12"
proof -
  from assms have len: "length u = 36" and d: "u ! 23 = 45"
    and h: "\<forall>i < 36. i \<notin> {8, 13, 18, 23} \<longrightarrow> is_hex_lower (u ! i)"
    by (auto simp: uuid_shaped_def split: if_splits)
  have "45 \<notin> set (drop 24 u)"
  proof
    assume "45 \<in> set (drop 24 u)"
    then obtain i where i: "i < length (drop 24 u)" "drop 24 u ! i = 45"
      by (auto simp: in_set_conv_nth)
    with len have "24 + i < 36" "u ! (24 + i) = 45" by auto
    with h [rule_format, of "24 + i"] show False by (simp add: is_hex_lower_def)
  qed
  moreover from len d have "u = take 23 u @ 45 # drop 24 u"
    using id_take_nth_drop [of 23 u] by simp
  ultimately have "last_segment u = drop 24 u"
    using last_segment_dash [of "drop 24 u" "take 23 u"] by simp
  with len show ?thesis by simp
qed

lemma generateId_eq:
  "generateId e c =
     ((case uuid e of Some u \<Rightarrow> u | None \<Rightarrow> fallback_id e ((c + 1) mod 10000)), (c + 1) mod 10000)"
  by (simp add: generateId_def fallback_id_def Let_def split: option.splits)

lemma generateIds_length: "length (fst (generateIds es c)) = length es"
  by (induction es arbitrary: c) (simp_all add: Let_def case_prod_beta)

lemma counter_step: "((c + 1) mod 10000 + k + 1) mod 10000 = (c + Suc k + 1) mod (10000::nat)"
proof -
  have "((c + 1) mod 10000 + k + 1) mod 10000 = ((c + 1) mod 10000 + (k + 1)) mod 10000"
    by (simp only: add.assoc)
  also have "\<dots> = ((c + 1) + (k + 1)) mod 10000"
    by (rule mod_add_left_eq)
  also have "(c + 1) + (k + 1) = c + Suc k + 1"
    by simp
  finally show ?thesis .
qed

lemma generateIds_nth:
  "k < length es \<Longrightarrow>
   fst (generateIds es c) ! k =
     (case uuid (es ! k) of Some u \<Rightarrow> u | None \<Rightarrow> fallback_id (es ! k) ((c + k + 1) mod 10000))"
proof (induction es arbitrary: c k)
  case Nil
  then show ?case by simp
next
  case (Cons e es)
  show ?case
  proof (cases k)
    case 0
    then show ?thesis by (simp add: generateId_eq Let_def case_prod_beta split: option.splits)
  next
    case (Suc k')
    with Cons.prems have "k' < length es" by simp
    from Cons.IH [OF this, of "(c + 1) mod 10000"] Suc
    show ?thesis
      unfolding counter_step by (simp add: generateId_eq Let_def case_prod_beta split: option.splits)
  qed
qed

lemma counters_differ:
  assumes "j < k" "k < 10000"
  shows "(c + j + 1) mod 10000 \<noteq> (c + k + 1) mod (10000::nat)"
proof
  assume "(c + j + 1) mod 10000 = (c + k + 1) mod 10000"
  moreover from assms have "c + j + 1 \<le> c + k + 1" by simp
  ultimately have "10000 dvd (c + k + 1) - (c + j + 1)"
    by (simp only: mod_eq_dvd_iff_nat [OF \<open>c + j + 1 \<le> c + k + 1\<close>, symmetric])
  then have "(10000::nat) dvd k - j" by simp
  with assms have "10000 \<le> k - j" by (intro dvd_imp_le) auto
  with assms show False by simp
qed

text \<open>
  C6. Not more than 10,000 sequential calls of the id generator give pairwise distinct
  ids, whatever the clock shows (in particular when it stands still) and whatever the
  random part is: the ids built on the fallback path end in the counter, which takes
  pairwise different values over 10,000 calls. Where the platform's
  \<open>crypto.randomUUID\<close> answers, the id is its answer, taken to be a UUID that it has
  not returned before.
\<close>

theorem generateId_10000_distinct:
  assumes "length es \<le> 10000"
    and "\<forall>e \<in> set es. \<forall>u. uuid e = Some u \<longrightarrow> uuid_shaped u"
    and "\<forall>k < length es. \<forall>j < k. uuid (es ! j) \<noteq> None \<longrightarrow> uuid (es ! j) \<noteq> uuid (es ! k)"
  shows "distinct (fst (generateIds es c))"
proof -
  have "fst (generateIds es c) ! j \<noteq> fst (generateIds es c) ! k"
    if jk: "j < k" and k: "k < length es" for j k
  proof (cases "uuid (es ! j)")
    case None
    note nj = this
    show ?thesis
    proof (cases "uuid (es ! k)")
      case None
      from jk k assms(1) have "(c + j + 1) mod 10000 \<noteq> (c + k + 1) mod 10000"
        by (intro counters_differ) auto
      then have "decimal ((c + j + 1) mod 10000) \<noteq> decimal ((c + k + 1) mod 10000)"
        by (auto dest: decimal_inj)
      then have "fallback_id (es ! j) ((c + j + 1) mod 10000)
                  \<noteq> fallback_id (es ! k) ((c + k + 1) mod 10000)"
        by (auto dest: arg_cong [where f = last_segment] simp: last_segment_fallback)
      with nj None jk k show ?thesis by (simp add: generateIds_nth)
    next
      case (Some u)
      with assms(2) nth_mem [OF k] have "uuid_shaped u" by blast
      then have "length (last_segment u) = 12" by (rule last_segment_uuid)
      moreover have "length (last_segment (fallback_id (es ! j) ((c + j + 1) mod 10000))) \<le> 4"
        by (simp add: last_segment_fallback decimal_length)
      ultimately have "fallback_id (es ! j) ((c + j + 1) mod 10000) \<noteq> u" by auto
      with nj Some jk k show ?thesis by (simp add: generateIds_nth)
    qed
  next
    case (Some u)
    note sj = this
    show ?thesis
    proof (cases "uuid (es ! k)")
      case None
      from jk k have "j < length es" by simp
      with sj assms(2) nth_mem [of j es] have "uuid_shaped u" by blast
      then have "length (last_segment u) = 12" by (rule last_segment_uuid)
      moreover have "length (last_segment (fallback_id (es ! k) ((c + k + 1) mod 10000))) \<le> 4"
        by (simp add: last_segment_fallback decimal_length)
      ultimately have "u \<noteq> fallback_id (es ! k) ((c + k + 1) mod 10000)" by auto
      with sj None jk k show ?thesis by (simp add: generateIds_nth)
    next
      case (Some u')
      from assms(3) [rule_format, OF k jk] sj have "uuid (es ! j) \<noteq> uuid (es ! k)" by simp
      with sj Some jk k show ?thesis by (simp add: generateIds_nth)
    qed
  qed
  note lt = this
  have "fst (generateIds es c) ! i \<noteq> fst (generateIds es c) ! j"
    if "i < length es" "j < length es" "i \<noteq> j" for i j
  proof (cases "i < j")
    case True
    with that show ?thesis by (intro lt)
  next
    case False
    with that have "j < i" by simp
    with that have "fst (generateIds es c) ! j \<noteq> fst (generateIds es c) ! i" by (intro lt)
    then show ?thesis by simp
  qed
  then show ?thesis by (simp add: distinct_conv_nth generateIds_length)
qed

text \<open>10,000 calls with the clock and the random number both standing still.\<close>

theorem generateId_10000_distinct_witness:
  "length frozen_calls = 10000
   \<and> distinct (fst (generateIds frozen_calls 0))
   \<and> length (fst (generateIds frozen_calls 0)) = 10000"
proof -
  have l: "length frozen_calls = 10000"
    unfolding frozen_calls_def by (rule length_replicate)
  have f: "\<forall>e \<in> set frozen_calls. e = frozen"
    unfolding frozen_calls_def by (intro ballI) (simp only: in_set_replicate)
  have u: "\<forall>e \<in> set frozen_calls. now e = 1700000000000 \<and> uuid e = None"
  proof
    fix e assume "e \<in> set frozen_calls"
    with f have "e = frozen" by blast
    then show "now e = 1700000000000 \<and> uuid e = None" by (simp add: frozen_def)
  qed
  then have a: "\<forall>e \<in> set frozen_calls. \<forall>u. uuid e = Some u \<longrightarrow> uuid_shaped u"
    by simp
  have b: "\<forall>k < length frozen_calls. \<forall>j < k.
             uuid (frozen_calls ! j) \<noteq> None \<longrightarrow> uuid (frozen_calls ! j) \<noteq> uuid (frozen_calls ! k)"
  proof (intro allI impI)
    fix k j assume "k < length frozen_calls" "j < k"
    then have "frozen_calls ! j \<in> set frozen_calls" by (intro nth_mem) simp
    with u have "uuid (frozen_calls ! j) = None" by blast
    moreover assume "uuid (frozen_calls ! j) \<noteq> None"
    ultimately show "uuid (frozen_calls ! j) \<noteq> uuid (frozen_calls ! k)" by simp
  qed
  have "distinct (fst (generateIds frozen_calls 0))"
    using a b by (intro generateId_10000_distinct) (simp_all add: l)
  with l show ?thesis
    by (simp add: generateIds_length)
qed

section \<open>Manual add\<close>




section \<open>Import failures\<close>

lemma handleImport_decode:
  "handleImport w s =
     (if trim (importCode s) = [] then s
      else case decode (trim (importCode s)) of
             Inl e \<Rightarrow> import_failed s
           | Inr xs \<Rightarrow>
               (case array_map (fixImported w) 0 xs (idCounter s) of
                  (Inl e, c) \<Rightarrow> import_failed (s\<lparr> idCounter := c \<rparr>)
                | (Inr validTasks, c) \<Rightarrow>
                    s\<lparr> tasks := validTasks, idCounter := c,
                       syncMessage := Some (js ''Tasks updated successfully!'', js ''success''),
                       importCode := [] \<rparr>))"
  by (simp add: handleImport_def decode_def split: sum.splits jsval.splits)




lemmas json_eval = JSON_parse_def skip_ws_def is_json_ws_def is_digit_def
  parse_number_def int_part_def frac_part_def exp_part_def digits_value_def hexval_def
  escape_char_def literal_def build_object_def js_def Let_def

lemmas codec_eval = atob_def strip_padding_def is_ascii_whitespace_def b64_index_def
  decodeURIComponent_def hexval_def is_cont_def utf16_def js_def Let_def

lemmas trim_eval = trim_def js_def is_js_whitespace_def






section \<open>The two migrations\<close>

lemma JSON_parse_legacy: "JSON_parse legacy_text = Inr (JArr [JObj legacy_task])"
  by (simp add: legacy_text_def legacy_task_def json_eval)

lemma atob_legacy:
  "atob legacy_code =
     Inr (js ''%5B%7B%22id%22%3A%22a%22%2C%22title%22%3A%22X%22%2C%22isCompleted%22%3A1%7D%5D'')"
  by (simp add: legacy_code_def codec_eval)

lemma unescape_legacy:
  "decodeURIComponent
     (js ''%5B%7B%22id%22%3A%22a%22%2C%22title%22%3A%22X%22%2C%22isCompleted%22%3A1%7D%5D'')
   = Inr legacy_text"
  by (simp add: legacy_text_def codec_eval)

lemma decode_legacy: "decode legacy_code = Inr [JObj legacy_task]"
  by (simp add: decode_def atob_legacy unescape_legacy JSON_parse_legacy)

lemma trim_legacy: "trim legacy_code = legacy_code"
  by (simp add: legacy_code_def trim_eval)

text \<open>
  C2 at the stored or imported array \<^verbatim>\<open>[{"id":"a","title":"X","isCompleted":1}]\<close>. The
  load gives the task a \<open>createdAt\<close> and leaves \<open>isCompleted\<close> the number 1; the import
  makes \<open>isCompleted\<close> the boolean \<open>true\<close> and gives the task no \<open>createdAt\<close>.
\<close>

theorem migrations_differ:
  "loadTasks w (Inr (Some legacy_text)) c =
     ([[(js ''id'', JStr (js ''a'')), (js ''title'', JStr (js ''X'')),
        (js ''isCompleted'', JNum 1), (js ''createdAt'', JNum (of_int (nowAt w 0)))]], c)
   \<and> tasks (handleImport w (s\<lparr> importCode := legacy_code \<rparr>)) =
       [[(js ''id'', JStr (js ''a'')), (js ''title'', JStr (js ''X'')),
         (js ''isCompleted'', JBool True)]]"
proof
  have "legacy_text \<noteq> []" by (simp add: legacy_text_def)
  then show "loadTasks w (Inr (Some legacy_text)) c =
     ([[(js ''id'', JStr (js ''a'')), (js ''title'', JStr (js ''X'')),
        (js ''isCompleted'', JNum 1), (js ''createdAt'', JNum (of_int (nowAt w 0)))]], c)"
    by (simp add: loadTasks_def JSON_parse_legacy migrateLoaded_def legacy_task_def
                  id_or_fresh_def)
next
  have "legacy_code \<noteq> []" by (simp add: legacy_code_def)
  then show "tasks (handleImport w (s\<lparr> importCode := legacy_code \<rparr>)) =
       [[(js ''id'', JStr (js ''a'')), (js ''title'', JStr (js ''X'')),
         (js ''isCompleted'', JBool True)]]"
    by (simp add: handleImport_decode trim_legacy decode_legacy fixImported_def legacy_task_def
                  id_or_fresh_def)
qed

section \<open>The persistence effect: one write for a burst, and the error status\<close>

lemma earliest_None: "earliest xs = None \<longleftrightarrow> xs = []"
  by (cases xs) (auto split: option.splits)

lemma before_irrefl: "\<not> before x x"
  by (simp add: before_def)

lemma before_trans: "before x y \<Longrightarrow> before y z \<Longrightarrow> before x z"
  by (auto simp: before_def)

lemma before_total: "\<not> before x y \<Longrightarrow> \<not> before y x \<Longrightarrow> due x = due y \<and> timerId x = timerId y"
  by (auto simp: before_def)

lemma earliest_least: "earliest xs = Some x \<Longrightarrow> y \<in> set xs \<Longrightarrow> \<not> before y x"
proof (induction xs arbitrary: x y)
  case Nil
  then show ?case by simp
next
  case (Cons a xs)
  show ?case
  proof (cases "earliest xs")
    case None
    then have "xs = []" by (simp add: earliest_None)
    with Cons.prems show ?thesis by (simp add: before_irrefl)
  next
    case (Some z)
    with Cons.IH [of z] have least: "\<And>v. v \<in> set xs \<Longrightarrow> \<not> before v z" by simp
    show ?thesis
    proof (cases "before z a")
      case True
      with Cons.prems Some have x: "x = z" by simp
      show ?thesis
      proof (cases "y = a")
        case True
        with \<open>before z a\<close> x show ?thesis
          using before_trans [of a z a] before_irrefl [of a] by blast
      next
        case False
        with Cons.prems have "y \<in> set xs" by simp
        with least x show ?thesis by simp
      qed
    next
      case False
      with Cons.prems Some have x: "x = a" by simp
      show ?thesis
      proof (cases "y = a")
        case True
        with x show ?thesis by (simp add: before_irrefl)
      next
        case ya: False
        with Cons.prems have "y \<in> set xs" by simp
        then have nz: "\<not> before y z" by (rule least)
        show ?thesis
        proof
          assume "before y x"
          with x False nz show False
            by (auto simp: before_def)
        qed
      qed
    qed
  qed
qed

lemma page_ok_mount: "page_ok ok (mount ts stored)"
  by (simp add: page_ok_def mount_def tasks_changed_def setTimeout_def latest_threw_def is_save_def)

lemma saves_cleared:
  assumes "page_ok ok p"
  shows "\<forall>x \<in> set (timers (case cleanup p of None \<Rightarrow> p | Some i \<Rightarrow> clearTimeout i p)). \<not> is_save x"
proof -
  from assms have c: "\<forall>x \<in> set (timers p). is_save x \<longrightarrow> cleanup p = Some (timerId x)"
    by (simp add: page_ok_def)
  show ?thesis
  proof (cases "cleanup p")
    case None
    with c show ?thesis by auto
  next
    case (Some i)
    with c show ?thesis by (auto simp: clearTimeout_def)
  qed
qed

lemma page_ok_tasks_changed:
  assumes "page_ok ok p"
  shows "page_ok ok (tasks_changed ts p)"
proof -
  define q where "q = (case cleanup p of None \<Rightarrow> p | Some i \<Rightarrow> clearTimeout i p)"
  define n where "n = \<lparr> timerId = nextTimerId p, due = clock p + 500, callback = SaveTasks ts \<rparr>"
  have sub: "set (timers q) \<subseteq> set (timers p)"
    by (auto simp: q_def clearTimeout_def split: option.splits)
  have same: "nextTimerId q = nextTimerId p" "clock q = clock p" "saveStatus q = saveStatus p"
    "setItemCalls q = setItemCalls p"
    by (auto simp: q_def clearTimeout_def split: option.splits)
  have tc: "tasks_changed ts p = q\<lparr> timers := timers q @ [n], nextTimerId := nextTimerId p + 1,
                                       cleanup := Some (nextTimerId p) \<rparr>"
    by (simp add: tasks_changed_def setTimeout_def Let_def same q_def [symmetric] n_def)
  have nos: "\<forall>x \<in> set (timers q). \<not> is_save x"
    unfolding q_def using assms by (rule saves_cleared)
  have ns: "is_save n" "timerId n = nextTimerId p" "due n = clock p + 500"
    by (simp_all add: is_save_def n_def)
  from assms have "\<forall>x \<in> set (timers p). timerId x < nextTimerId p \<and> due x \<le> clock p + 500"
    by (simp add: page_ok_def)
  with sub have b: "\<forall>x \<in> set (timers q). timerId x < nextTimerId p \<and> due x \<le> clock p + 500"
    by blast
  from assms have "inj_on timerId (set (timers p))"
    by (simp add: page_ok_def)
  then have inj: "inj_on timerId (set (timers q))"
    using sub by (rule inj_on_subset)
  from assms have st: "saveStatus p = Error \<longleftrightarrow> latest_threw ok p"
    by (simp add: page_ok_def)
  have emp: "latest_threw ok p \<longrightarrow> timers q = []"
  proof
    assume "latest_threw ok p"
    with assms have "\<forall>x \<in> set (timers p). is_save x" by (simp add: page_ok_def)
    with sub nos show "timers q = []" by (cases "timers q") auto
  qed
  have lt: "latest_threw ok (tasks_changed ts p) = latest_threw ok p"
    by (simp add: tc latest_threw_def same)
  have tm: "set (timers (tasks_changed ts p)) = insert n (set (timers q))"
    by (simp add: tc)
  show ?thesis
    unfolding page_ok_def lt tm
  proof (intro conjI)
    show "\<forall>x \<in> insert n (set (timers q)).
            timerId x < nextTimerId (tasks_changed ts p) \<and> due x \<le> clock (tasks_changed ts p) + 500"
    proof
      fix x assume "x \<in> insert n (set (timers q))"
      then consider "x = n" | "x \<in> set (timers q)" by auto
      then show "timerId x < nextTimerId (tasks_changed ts p) \<and> due x \<le> clock (tasks_changed ts p) + 500"
      proof cases
        case 1
        with ns show ?thesis by (simp add: tc same)
      next
        case 2
        with b have "timerId x < nextTimerId p" "due x \<le> clock p + 500" by auto
        then show ?thesis by (simp add: tc same)
      qed
    qed
    show "inj_on timerId (insert n (set (timers q)))"
    proof -
      have "\<forall>x \<in> set (timers q). timerId x \<noteq> timerId n"
      proof
        fix x assume "x \<in> set (timers q)"
        with b have "timerId x < nextTimerId p" by auto
        with ns show "timerId x \<noteq> timerId n" by simp
      qed
      then have "timerId n \<notin> timerId ` (set (timers q) - {n})" by force
      with inj show ?thesis by (simp only: inj_on_insert) simp
    qed
    show "\<forall>x \<in> insert n (set (timers q)). is_save x \<longrightarrow>
            cleanup (tasks_changed ts p) = Some (timerId x) \<and>
            (\<forall>y \<in> insert n (set (timers q)). \<not> is_save y \<longrightarrow> before y x)"
    proof (intro ballI impI)
      fix x assume x: "x \<in> insert n (set (timers q))" and sx: "is_save x"
      with nos have xn: "x = n" by auto
      have "\<forall>y \<in> insert n (set (timers q)). \<not> is_save y \<longrightarrow> before y x"
      proof (intro ballI impI)
        fix y assume "y \<in> insert n (set (timers q))" and "\<not> is_save y"
        with ns have "y \<in> set (timers q)" by auto
        with b have "timerId y < nextTimerId p" "due y \<le> clock p + 500" by auto
        with xn ns show "before y x" by (auto simp: before_def)
      qed
      with xn ns show "cleanup (tasks_changed ts p) = Some (timerId x) \<and>
            (\<forall>y \<in> insert n (set (timers q)). \<not> is_save y \<longrightarrow> before y x)"
        by (simp add: tc)
    qed
    show "saveStatus (tasks_changed ts p) = Error \<longleftrightarrow> latest_threw ok p"
      using st by (simp add: tc same)
    show "latest_threw ok p \<longrightarrow> (\<forall>x \<in> insert n (set (timers q)). is_save x)"
      using emp ns by auto
  qed
qed


lemma timers_removed:
  assumes "inj_on timerId (set xs)" and "x \<in> set xs"
  shows "set (filter (\<lambda>y. timerId y \<noteq> timerId x) xs) = set xs - {x}"
proof -
  have "timerId y = timerId x \<longleftrightarrow> y = x" if "y \<in> set xs" for y
    using assms that by (auto dest: inj_onD)
  then show ?thesis by auto
qed

lemma fire_show:
  "callback x = ShowSaved \<Longrightarrow>
   fire ok x p = p\<lparr> clock := max (clock p) (due x),
                      timers := filter (\<lambda>y. timerId y \<noteq> timerId x) (timers p),
                      saveStatus := Saved \<rparr>"
  by (simp add: fire_def)

lemma fire_save_ok:
  "callback x = SaveTasks xs \<Longrightarrow> ok (length (setItemCalls p)) \<Longrightarrow>
   fire ok x p =
     p\<lparr> clock := max (clock p) (due x),
        timers := filter (\<lambda>y. timerId y \<noteq> timerId x) (timers p) @
                  [\<lparr> timerId = nextTimerId p, due = max (clock p) (due x) + 500,
                     callback = ShowSaved \<rparr>],
        nextTimerId := nextTimerId p + 1,
        saveStatus := Saving,
        storage := Some (text_of xs),
        setItemCalls := setItemCalls p @ [text_of xs] \<rparr>"
  by (simp add: fire_def saveTasks_def setTimeout_def Let_def text_of_def)

lemma fire_save_threw:
  "callback x = SaveTasks xs \<Longrightarrow> \<not> ok (length (setItemCalls p)) \<Longrightarrow>
   fire ok x p =
     p\<lparr> clock := max (clock p) (due x),
        timers := filter (\<lambda>y. timerId y \<noteq> timerId x) (timers p),
        saveStatus := Error,
        setItemCalls := setItemCalls p @ [text_of xs] \<rparr>"
  by (simp add: fire_def saveTasks_def setTimeout_def Let_def text_of_def)

lemma is_save_iff: "is_save x \<longleftrightarrow> (\<exists>xs. callback x = SaveTasks xs)"
  by (cases "callback x") (simp_all add: is_save_def)

lemma not_is_save_iff: "\<not> is_save x \<longleftrightarrow> callback x = ShowSaved"
  by (cases "callback x") (simp_all add: is_save_def)

text \<open>When \<open>saveTasks\<close> is the next timer to fire, it is the only timer.\<close>

lemma save_fires_alone:
  assumes ok: "page_ok ok p" and e: "earliest (timers p) = Some x" and s: "is_save x"
  shows "filter (\<lambda>y. timerId y \<noteq> timerId x) (timers p) = []"
proof -
  from e have xin: "x \<in> set (timers p)" by (rule earliest_mem)
  from ok have inj: "inj_on timerId (set (timers p))" by (simp add: page_ok_def)
  from ok have sv: "\<forall>y \<in> set (timers p). is_save y \<longrightarrow>
      cleanup p = Some (timerId y) \<and> (\<forall>z \<in> set (timers p). \<not> is_save z \<longrightarrow> before z y)"
    by (simp add: page_ok_def)
  have "y = x" if y: "y \<in> set (timers p)" for y
  proof -
    have "is_save y"
    proof (rule ccontr)
      assume "\<not> is_save y"
      with sv xin s y have "before y x" by blast
      moreover from e y have "\<not> before y x" by (rule earliest_least)
      ultimately show False by simp
    qed
    with sv y have "cleanup p = Some (timerId y)" by blast
    moreover from sv xin s have "cleanup p = Some (timerId x)" by blast
    ultimately have "timerId y = timerId x" by simp
    with inj y xin show "y = x" by (auto dest: inj_onD)
  qed
  then have "set (filter (\<lambda>y. timerId y \<noteq> timerId x) (timers p)) = {}" by auto
  then show ?thesis by simp
qed

lemma page_ok_fire:
  assumes ok: "page_ok ok p" and e: "earliest (timers p) = Some x"
  shows "page_ok ok (fire ok x p)"
proof -
  from e have xin: "x \<in> set (timers p)" by (rule earliest_mem)
  from ok have b: "\<forall>y \<in> set (timers p). timerId y < nextTimerId p \<and> due y \<le> clock p + 500"
    and inj: "inj_on timerId (set (timers p))"
    and sv: "\<forall>y \<in> set (timers p). is_save y \<longrightarrow>
      cleanup p = Some (timerId y) \<and> (\<forall>z \<in> set (timers p). \<not> is_save z \<longrightarrow> before z y)"
    and st: "saveStatus p = Error \<longleftrightarrow> latest_threw ok p"
    and al: "latest_threw ok p \<longrightarrow> (\<forall>y \<in> set (timers p). is_save y)"
    by (simp_all add: page_ok_def)
  let ?T = "filter (\<lambda>y. timerId y \<noteq> timerId x) (timers p)"
  have sub: "set ?T \<subseteq> set (timers p)" by auto
  show ?thesis
  proof (cases "callback x")
    case ShowSaved
    then have nx: "\<not> is_save x" by (simp add: is_save_def)
    with al xin have nl: "\<not> latest_threw ok p" by blast
    have f: "fire ok x p = p\<lparr> clock := max (clock p) (due x), timers := ?T, saveStatus := Saved \<rparr>"
      using ShowSaved by (rule fire_show)
    have lt: "\<not> latest_threw ok (fire ok x p)"
      using nl by (simp add: f latest_threw_def)
    have b': "\<forall>y \<in> set ?T. timerId y < nextTimerId p \<and> due y \<le> max (clock p) (due x) + 500"
    proof
      fix y assume "y \<in> set ?T"
      with sub b have "timerId y < nextTimerId p" "due y \<le> clock p + 500" by auto
      then show "timerId y < nextTimerId p \<and> due y \<le> max (clock p) (due x) + 500" by simp
    qed
    have inj': "inj_on timerId (set ?T)"
      using inj sub by (rule inj_on_subset)
    have sv': "\<forall>y \<in> set ?T. is_save y \<longrightarrow>
        cleanup p = Some (timerId y) \<and> (\<forall>z \<in> set ?T. \<not> is_save z \<longrightarrow> before z y)"
      using sv sub by blast
    show ?thesis
      unfolding page_ok_def using b' inj' sv' lt by (simp add: f)
  next
    case (SaveTasks xs)
    then have sx: "is_save x" by (simp add: is_save_def)
    from ok e sx have empty: "?T = []" by (rule save_fires_alone)
    show ?thesis
    proof (cases "ok (length (setItemCalls p))")
      case True
      with SaveTasks have f: "fire ok x p =
         p\<lparr> clock := max (clock p) (due x),
            timers := ?T @ [\<lparr> timerId = nextTimerId p, due = max (clock p) (due x) + 500,
                               callback = ShowSaved \<rparr>],
            nextTimerId := nextTimerId p + 1, saveStatus := Saving,
            storage := Some (text_of xs), setItemCalls := setItemCalls p @ [text_of xs] \<rparr>"
        by (rule fire_save_ok)
      have lt: "\<not> latest_threw ok (fire ok x p)"
        using True by (simp add: f latest_threw_def)
      show ?thesis
        unfolding page_ok_def using lt by (simp add: f empty is_save_def)
    next
      case False
      with SaveTasks have f: "fire ok x p =
         p\<lparr> clock := max (clock p) (due x), timers := ?T, saveStatus := Error,
            setItemCalls := setItemCalls p @ [text_of xs] \<rparr>"
        by (rule fire_save_threw)
      have lt: "latest_threw ok (fire ok x p)"
        using False by (simp add: f latest_threw_def)
      show ?thesis
        unfolding page_ok_def using lt by (simp add: f empty)
    qed
  qed
qed

declare run_timers.simps [simp del]

lemma run_timers_done: "earliest (timers p) = None \<Longrightarrow> run_timers ok t p = p"
  by (subst run_timers.simps) simp

lemma run_timers_later: "earliest (timers p) = Some x \<Longrightarrow> \<not> due x \<le> t \<Longrightarrow> run_timers ok t p = p"
  by (subst run_timers.simps) simp

lemma run_timers_fire:
  "earliest (timers p) = Some x \<Longrightarrow> due x \<le> t \<Longrightarrow> run_timers ok t p = run_timers ok t (fire ok x p)"
  by (subst run_timers.simps) simp

lemma page_ok_run_timers: "page_ok ok p \<Longrightarrow> page_ok ok (run_timers ok t p)"
proof (induction ok t p rule: run_timers.induct)
  case (1 ok t p)
  show ?case
  proof (cases "earliest (timers p)")
    case None
    with 1 show ?thesis by (simp add: run_timers_done)
  next
    case (Some x)
    show ?thesis
    proof (cases "due x \<le> t")
      case True
      from "1.prems" Some have "page_ok ok (fire ok x p)" by (rule page_ok_fire)
      with "1.IH" [OF Some True] have "page_ok ok (run_timers ok t (fire ok x p))" by simp
      with Some True show ?thesis by (simp add: run_timers_fire)
    next
      case False
      with Some 1 show ?thesis by (simp add: run_timers_later)
    qed
  qed
qed

lemma clock_fire: "clock (fire ok x p) = max (clock p) (due x)"
  by (cases "callback x") (simp_all add: fire_def saveTasks_def setTimeout_def Let_def)

lemma clock_run_timers: "clock p \<le> t \<Longrightarrow> clock (run_timers ok t p) \<le> t"
proof (induction ok t p rule: run_timers.induct)
  case (1 ok t p)
  show ?case
  proof (cases "earliest (timers p)")
    case None
    with 1 show ?thesis by (simp add: run_timers_done)
  next
    case (Some x)
    show ?thesis
    proof (cases "due x \<le> t")
      case True
      with "1.prems" have "clock (fire ok x p) \<le> t" by (simp add: clock_fire)
      with "1.IH" [OF Some True] have "clock (run_timers ok t (fire ok x p)) \<le> t" by simp
      with Some True show ?thesis by (simp add: run_timers_fire)
    next
      case False
      with Some 1 show ?thesis by (simp add: run_timers_later)
    qed
  qed
qed

lemma page_ok_later: "page_ok ok p \<Longrightarrow> clock p \<le> t \<Longrightarrow> page_ok ok (p\<lparr> clock := t \<rparr>)"
  unfolding page_ok_def latest_threw_def by (simp) (meson add_le_mono1 le_trans)

lemma page_ok_step: "page_ok ok p \<Longrightarrow> page_ok ok (step ok e p)"
proof (cases e)
  case (SetTasks ts)
  assume "page_ok ok p"
  with SetTasks show ?thesis by (simp add: page_ok_tasks_changed)
next
  case (Wait d)
  assume a: "page_ok ok p"
  then have "page_ok ok (run_timers ok (clock p + d) p)" by (rule page_ok_run_timers)
  moreover have "clock (run_timers ok (clock p + d) p) \<le> clock p + d"
    by (rule clock_run_timers) simp
  ultimately have "page_ok ok ((run_timers ok (clock p + d) p)\<lparr> clock := clock p + d \<rparr>)"
    by (rule page_ok_later)
  with Wait show ?thesis by simp
qed

lemma page_ok_run: "page_ok ok p \<Longrightarrow> page_ok ok (run ok evs p)"
  unfolding run_def by (induction evs arbitrary: p) (simp_all add: page_ok_step)


lemma run_append: "run ok (a @ b) p = run ok b (run ok a p)"
  by (simp add: run_def)

lemma filter_saves_removed:
  assumes "inj_on timerId (set xs)" and "x \<in> set xs" and "\<not> is_save x"
  shows "filter is_save (filter (\<lambda>y. timerId y \<noteq> timerId x) xs) = filter is_save xs"
proof -
  have "is_save y \<and> timerId y \<noteq> timerId x \<longleftrightarrow> is_save y" if "y \<in> set xs" for y
    using assms that by (auto dest: inj_onD)
  then show ?thesis by (simp add: conj_commute cong: filter_cong)
qed

text \<open>While no \<open>saveTasks\<close> is due, time passing writes nothing and keeps it pending.\<close>

lemma run_timers_quiet:
  "page_ok ok p \<Longrightarrow> \<forall>x \<in> set (timers p). is_save x \<longrightarrow> t < due x \<Longrightarrow>
   setItemCalls (run_timers ok t p) = setItemCalls p
   \<and> filter is_save (timers (run_timers ok t p)) = filter is_save (timers p)"
proof (induction ok t p rule: run_timers.induct)
  case (1 ok t p)
  show ?case
  proof (cases "earliest (timers p)")
    case None
    then show ?thesis by (simp add: run_timers_done)
  next
    case (Some x)
    show ?thesis
    proof (cases "due x \<le> t")
      case False
      with Some show ?thesis by (simp add: run_timers_later)
    next
      case True
      from Some have xin: "x \<in> set (timers p)" by (rule earliest_mem)
      with "1.prems"(2) True have nx: "\<not> is_save x" by auto
      then have cb: "callback x = ShowSaved" by (simp add: not_is_save_iff)
      from "1.prems"(1) have inj: "inj_on timerId (set (timers p))" by (simp add: page_ok_def)
      have f: "fire ok x p = p\<lparr> clock := max (clock p) (due x),
                 timers := filter (\<lambda>y. timerId y \<noteq> timerId x) (timers p), saveStatus := Saved \<rparr>"
        using cb by (rule fire_show)
      have calls: "setItemCalls (fire ok x p) = setItemCalls p" by (simp add: f)
      have saves: "filter is_save (timers (fire ok x p)) = filter is_save (timers p)"
        using filter_saves_removed [OF inj xin nx] by (simp add: f del: filter_filter)
      have pk: "page_ok ok (fire ok x p)" using "1.prems"(1) Some by (rule page_ok_fire)
      have later: "\<forall>y \<in> set (timers (fire ok x p)). is_save y \<longrightarrow> t < due y"
        using "1.prems"(2) by (simp add: f)
      from "1.IH" [OF Some True pk later] calls saves
      show ?thesis by (simp add: run_timers_fire [OF Some True])
    qed
  qed
qed

text \<open>Once the pending \<open>saveTasks\<close> is due, time passing writes its collection, once.\<close>

lemma run_timers_flush:
  "page_ok ok p \<Longrightarrow> s \<in> set (timers p) \<Longrightarrow> callback s = SaveTasks xs \<Longrightarrow> due s \<le> t \<Longrightarrow>
   setItemCalls (run_timers ok t p) = setItemCalls p @ [text_of xs]"
proof (induction ok t p rule: run_timers.induct)
  case (1 ok t p)
  from "1.prems"(2) have "timers p \<noteq> []" by auto
  then obtain x where e: "earliest (timers p) = Some x"
    by (cases "earliest (timers p)") (auto simp: earliest_None)
  then have xin: "x \<in> set (timers p)" by (rule earliest_mem)
  from e "1.prems"(2) have "\<not> before s x" by (rule earliest_least)
  with "1.prems"(4) have due: "due x \<le> t" by (auto simp: before_def)
  from "1.prems"(1) have inj: "inj_on timerId (set (timers p))"
    and sv: "\<forall>y \<in> set (timers p). is_save y \<longrightarrow> cleanup p = Some (timerId y)"
    by (simp_all add: page_ok_def)
  from "1.prems"(3) have ss: "is_save s" by (simp add: is_save_def)
  have pk: "page_ok ok (fire ok x p)" using "1.prems"(1) e by (rule page_ok_fire)
  have unfold: "run_timers ok t p = run_timers ok t (fire ok x p)"
    using e due by (rule run_timers_fire)
  show ?case
  proof (cases "is_save x")
    case True
    with sv xin have "cleanup p = Some (timerId x)" by blast
    moreover from sv ss "1.prems"(2) have "cleanup p = Some (timerId s)" by blast
    ultimately have "timerId x = timerId s" by simp
    with inj xin "1.prems"(2) have xs: "x = s" by (auto dest: inj_onD)
    from "1.prems"(1) e True have empty: "filter (\<lambda>y. timerId y \<noteq> timerId x) (timers p) = []"
      by (rule save_fires_alone)
    have calls: "setItemCalls (fire ok x p) = setItemCalls p @ [text_of xs]"
      using xs "1.prems"(3)
      by (cases "ok (length (setItemCalls p))") (simp_all add: fire_save_ok fire_save_threw)
    have nosave: "\<forall>y \<in> set (timers (fire ok x p)). \<not> is_save y"
      using xs "1.prems"(3) empty
      by (cases "ok (length (setItemCalls p))")
         (simp_all add: fire_save_ok fire_save_threw is_save_def)
    then have "\<forall>y \<in> set (timers (fire ok x p)). is_save y \<longrightarrow> t < due y" by simp
    with pk have "setItemCalls (run_timers ok t (fire ok x p)) = setItemCalls (fire ok x p)"
      using run_timers_quiet by blast
    with calls unfold show ?thesis by simp
  next
    case False
    then have cb: "callback x = ShowSaved" by (simp add: not_is_save_iff)
    have f: "fire ok x p = p\<lparr> clock := max (clock p) (due x),
               timers := filter (\<lambda>y. timerId y \<noteq> timerId x) (timers p), saveStatus := Saved \<rparr>"
      using cb by (rule fire_show)
    from False ss have "s \<noteq> x" by auto
    with inj xin "1.prems"(2) have "timerId s \<noteq> timerId x" by (auto dest: inj_onD)
    with "1.prems"(2) have sin: "s \<in> set (timers (fire ok x p))" by (simp add: f)
    from "1.IH" [OF e due pk sin "1.prems"(3) "1.prems"(4)]
    have "setItemCalls (run_timers ok t (fire ok x p)) = setItemCalls (fire ok x p) @ [text_of xs]" .
    with unfold show ?thesis by (simp add: f)
  qed
qed

lemma tasks_changed_pending:
  assumes "page_ok ok p"
  shows "setItemCalls (tasks_changed ts p) = setItemCalls p"
    and "clock (tasks_changed ts p) = clock p"
    and "\<lparr> timerId = nextTimerId p, due = clock p + 500, callback = SaveTasks ts \<rparr>
           \<in> set (timers (tasks_changed ts p))"
    and "\<forall>x \<in> set (timers (tasks_changed ts p)). is_save x \<longrightarrow> due x = clock p + 500"
proof -
  define q where "q = (case cleanup p of None \<Rightarrow> p | Some i \<Rightarrow> clearTimeout i p)"
  define n where "n = \<lparr> timerId = nextTimerId p, due = clock p + 500, callback = SaveTasks ts \<rparr>"
  have same: "nextTimerId q = nextTimerId p" "clock q = clock p" "setItemCalls q = setItemCalls p"
    by (auto simp: q_def clearTimeout_def split: option.splits)
  have tc: "tasks_changed ts p = q\<lparr> timers := timers q @ [n], nextTimerId := nextTimerId p + 1,
                                       cleanup := Some (nextTimerId p) \<rparr>"
    by (simp add: tasks_changed_def setTimeout_def Let_def same q_def [symmetric] n_def)
  have nos: "\<forall>x \<in> set (timers q). \<not> is_save x"
    unfolding q_def using assms by (rule saves_cleared)
  show "setItemCalls (tasks_changed ts p) = setItemCalls p" by (simp add: tc same)
  show "clock (tasks_changed ts p) = clock p" by (simp add: tc same)
  show "\<lparr> timerId = nextTimerId p, due = clock p + 500, callback = SaveTasks ts \<rparr>
           \<in> set (timers (tasks_changed ts p))"
    by (simp add: tc n_def)
  show "\<forall>x \<in> set (timers (tasks_changed ts p)). is_save x \<longrightarrow> due x = clock p + 500"
  proof (intro ballI impI)
    fix x assume "x \<in> set (timers (tasks_changed ts p))" and "is_save x"
    with nos have "x = n" by (auto simp: tc)
    then show "due x = clock p + 500" by (simp add: n_def)
  qed
qed

lemma burst_one_write:
  "page_ok ok p \<Longrightarrow> b \<noteq> [] \<Longrightarrow> \<forall>c \<in> set (butlast b). snd c < 500 \<Longrightarrow> 500 \<le> snd (last b) \<Longrightarrow>
   setItemCalls (run ok (burst_events b) p) = setItemCalls p @ [text_of (fst (last b))]"
proof (induction b arbitrary: p)
  case Nil
  then show ?case by simp
next
  case (Cons c rest)
  define q where "q = tasks_changed (fst c) p"
  define t where "t = clock p + snd c"
  have pq: "page_ok ok q" unfolding q_def using Cons.prems(1) by (rule page_ok_tasks_changed)
  note pend = tasks_changed_pending [OF Cons.prems(1), of "fst c", folded q_def]
  have ev: "run ok (burst_events (c # rest)) p
              = run ok (burst_events rest) ((run_timers ok t q)\<lparr> clock := t \<rparr>)"
    by (simp add: burst_events_def run_def q_def t_def pend(2) [unfolded q_def])
  show ?case
  proof (cases "rest = []")
    case True
    with Cons.prems have "500 \<le> snd c" by simp
    then have "clock p + 500 \<le> t" by (simp add: t_def)
    with run_timers_flush [OF pq pend(3), of "fst c" t ] 
    have "setItemCalls (run_timers ok t q) = setItemCalls q @ [text_of (fst c)]" by simp
    with True pend(1) show ?thesis unfolding ev by (simp add: burst_events_def run_def)
  next
    case False
    with Cons.prems have short: "snd c < 500" by simp
    then have "\<forall>x \<in> set (timers q). is_save x \<longrightarrow> t < due x"
      using pend(4) by (simp add: t_def)
    with pq have calls: "setItemCalls (run_timers ok t q) = setItemCalls q"
      using run_timers_quiet by blast
    have "page_ok ok (run_timers ok t q)" using pq by (rule page_ok_run_timers)
    moreover have "clock (run_timers ok t q) \<le> t"
      by (rule clock_run_timers) (simp add: t_def pend(2))
    ultimately have pk: "page_ok ok ((run_timers ok t q)\<lparr> clock := t \<rparr>)" by (rule page_ok_later)
    from False Cons.prems have "\<forall>c \<in> set (butlast rest). snd c < 500" "500 \<le> snd (last rest)"
      by auto
    from Cons.IH [OF pk False this]
    have "setItemCalls (run ok (burst_events rest) ((run_timers ok t q)\<lparr> clock := t \<rparr>))
            = setItemCalls p @ [text_of (fst (last rest))]"
      by (simp add: calls pend(1))
    with False show ?thesis unfolding ev by simp
  qed
qed

text \<open>
  C7. Take the page in any state it can reach. Let the collection change any number of
  times (at least once), less than 500 ms passing after each change but the last, and
  let 500 ms or more pass after the last one. Then \<open>setItem\<close> is called exactly once from
  the first of these changes on, with the text of the collection of the last change:
  each change clears the timer of the one before.
\<close>

theorem debounce_one_write:
  assumes "b \<noteq> []" and "\<forall>c \<in> set (butlast b). snd c < 500" and "500 \<le> snd (last b)"
  shows "setItemCalls (run ok (evs @ burst_events b) (mount ts0 stored))
           = setItemCalls (run ok evs (mount ts0 stored))
             @ [JSON_stringify (JArr (map JObj (fst (last b))))]"
proof -
  have "page_ok ok (run ok evs (mount ts0 stored))"
    by (intro page_ok_run page_ok_mount)
  from burst_one_write [OF this assms] show ?thesis
    by (simp add: run_append text_of_def)
qed

theorem debounce_one_write_witness:
  "setItemCalls (run (\<lambda>k. True) ([Wait 700] @ burst_events five_changes) (mount [] None))
     = setItemCalls (run (\<lambda>k. True) [Wait 700] (mount [] None))
       @ [JSON_stringify (JArr (map JObj [task_a, task_b]))]"
  using debounce_one_write [of five_changes "\<lambda>k. True" "[Wait 700]" "[]" None]
  by (simp add: five_changes_def)

text \<open>
  C8. When \<open>setItem\<close> throws, \<open>saveTasks\<close> leaves the status \<open>error\<close> (it sets \<open>saving\<close>
  and then, in the catch block, \<open>error\<close>). In every state the page can reach, the status
  is \<open>error\<close> exactly when the latest call of \<open>setItem\<close> threw, and then no timer is
  pending that would show \<open>saved\<close>: the status stays \<open>error\<close> until a later call of
  \<open>setItem\<close>, which only a change of the collection brings about, returns.
\<close>

theorem error_status_persists:
  "(\<not> ok (length (setItemCalls q)) \<longrightarrow> saveStatus (saveTasks ok xs q) = Error)
   \<and> (saveStatus (run ok evs (mount ts0 stored)) = Error
        \<longleftrightarrow> latest_threw ok (run ok evs (mount ts0 stored)))
   \<and> (saveStatus (run ok evs (mount ts0 stored)) = Error \<longrightarrow>
        (\<forall>x \<in> set (timers (run ok evs (mount ts0 stored))). callback x \<noteq> ShowSaved))"
proof -
  have pk: "page_ok ok (run ok evs (mount ts0 stored))"
    by (intro page_ok_run page_ok_mount)
  then have "saveStatus (run ok evs (mount ts0 stored)) = Error
        \<longleftrightarrow> latest_threw ok (run ok evs (mount ts0 stored))"
    by (simp add: page_ok_def)
  moreover from pk have "latest_threw ok (run ok evs (mount ts0 stored)) \<longrightarrow>
      (\<forall>x \<in> set (timers (run ok evs (mount ts0 stored))). is_save x)"
    by (simp add: page_ok_def)
  then have "latest_threw ok (run ok evs (mount ts0 stored)) \<longrightarrow>
      (\<forall>x \<in> set (timers (run ok evs (mount ts0 stored))). callback x \<noteq> ShowSaved)"
    by (auto simp: is_save_def)
  moreover have "\<not> ok (length (setItemCalls q)) \<longrightarrow> saveStatus (saveTasks ok xs q) = Error"
    by (simp add: saveTasks_def Let_def)
  ultimately show ?thesis by blast
qed

lemmas page_eval = run_def mount_def tasks_changed_def setTimeout_def clearTimeout_def
  run_timers.simps fire_def saveTasks_def Let_def before_def latest_threw_def

text \<open>
  The storage throws at the first write: the status is \<open>error\<close> a minute later and
  after a further change, until the write for that change, which returns.
\<close>

theorem error_status_persists_witness:
  "saveStatus (run (\<lambda>k. 0 < k) [Wait 500, Wait 60000, SetTasks [task_a], Wait 499]
                 (mount [] None)) = Error
   \<and> saveStatus (run (\<lambda>k. 0 < k) [Wait 500, Wait 60000, SetTasks [task_a], Wait 500]
                   (mount [] None)) \<noteq> Error"
proof -
  have a: "latest_threw (\<lambda>k. 0 < k)
             (run (\<lambda>k. 0 < k) [Wait 500, Wait 60000, SetTasks [task_a], Wait 499] (mount [] None))"
    by (simp add: page_eval)
  have b: "\<not> latest_threw (\<lambda>k. 0 < k)
             (run (\<lambda>k. 0 < k) [Wait 500, Wait 60000, SetTasks [task_a], Wait 500] (mount [] None))"
    by (simp add: page_eval)
  from error_status_persists
         [of "\<lambda>k. 0 < k" _ _ "[Wait 500, Wait 60000, SetTasks [task_a], Wait 499]" "[]" None]
       error_status_persists
         [of "\<lambda>k. 0 < k" _ _ "[Wait 500, Wait 60000, SetTasks [task_a], Wait 500]" "[]" None]
       a b
  show ?thesis by blast
qed

section \<open>Base 64 there and back\<close>

lemma split_div: "x < n \<Longrightarrow> (h * n + x) div n = (h::nat)"
  by simp

lemma split_mod: "x < n \<Longrightarrow> (h * n + x) mod n = (x::nat)"
  by simp

lemma byte_hi:
  "b < 256 \<Longrightarrow> b div 16 < (16::nat)"
  "b < 256 \<Longrightarrow> b div 64 < (4::nat)"
  "b < 256 \<Longrightarrow> b div 4 < (64::nat)"
  by (simp_all add: less_mult_imp_div_less)

lemma sextet2_lt: "b < 256 \<Longrightarrow> (a mod 4) * 16 + b div 16 < (64::nat)"
proof -
  assume "b < 256"
  then have "b div 16 < 16" by (rule byte_hi)
  moreover have "a mod 4 < 4" by simp
  then have "a mod 4 \<le> 3" by linarith
  then have "(a mod 4) * 16 \<le> 3 * 16" by (rule mult_le_mono1)
  ultimately show ?thesis by simp
qed

lemma sextet3_lt: "c < 256 \<Longrightarrow> (b mod 16) * 4 + c div 64 < (64::nat)"
proof -
  assume "c < 256"
  then have "c div 64 < 4" by (rule byte_hi)
  moreover have "b mod 16 < 16" by simp
  then have "b mod 16 \<le> 15" by linarith
  then have "(b mod 16) * 4 \<le> 15 * 4" by (rule mult_le_mono1)
  ultimately show ?thesis by simp
qed

lemma b64_encode_split: "b64_encode s = map b64_char (sextets s) @ b64_pad s"
  by (induction s rule: b64_encode.induct) simp_all

lemma sextets_lt: "\<forall>u \<in> set s. u < 256 \<Longrightarrow> \<forall>x \<in> set (sextets s). x < 64"
proof (induction s rule: sextets.induct)
  case (1 a b c rest)
  then show ?case
    using sextet2_lt [of b a] sextet3_lt [of c b] sextet3_lt [of 0 b] by (simp add: byte_hi)
next
  case (2 a b)
  then show ?case
    using sextet2_lt [of b a] sextet3_lt [of 0 b] by (simp add: byte_hi)
next
  case (3 a)
  then show ?case
    using sextet2_lt [of 0 a] by (simp add: byte_hi)
next
  case 4
  then show ?case by simp
qed

lemma b64_decode_sextets: "\<forall>u \<in> set s. u < 256 \<Longrightarrow> b64_decode (sextets s) = s"
proof (induction s rule: sextets.induct)
  case (1 a b c rest)
  then show ?case by (simp add: split_div split_mod byte_hi)
next
  case (2 a b)
  then show ?case by (simp add: split_div split_mod byte_hi)
next
  case (3 a)
  then show ?case by simp
next
  case 4
  then show ?case by simp
qed

lemma b64_index_char: "x < 64 \<Longrightarrow> b64_index (b64_char x) = Some x"
  unfolding b64_index_def b64_char_def by (auto split: if_splits)

lemma b64_char_plain:
  "x < 64 \<Longrightarrow> b64_char x \<noteq> 61 \<and> \<not> is_ascii_whitespace (b64_char x) \<and> \<not> is_js_whitespace (b64_char x)"
  unfolding b64_char_def is_ascii_whitespace_def is_js_whitespace_def
  by (auto split: if_splits)

lemma b64_pad_cases:
  "(b64_pad s = [] \<and> length (sextets s) mod 4 = 0)
   \<or> (b64_pad s = [61] \<and> length (sextets s) mod 4 = 3)
   \<or> (b64_pad s = [61, 61] \<and> length (sextets s) mod 4 = 2)"
  by (induction s rule: sextets.induct) auto

lemma strip_padding_encode:
  assumes "\<forall>u \<in> set s. u < 256"
  shows "strip_padding (b64_encode s) = map b64_char (sextets s)"
proof -
  let ?body = "map b64_char (sextets s)"
  have plain: "\<forall>c \<in> set ?body. c \<noteq> 61"
    using sextets_lt [OF assms] b64_char_plain by auto
  then have lastb: "?body \<noteq> [] \<Longrightarrow> last ?body \<noteq> 61"
    using last_in_set [of ?body] by blast
  from b64_pad_cases [of s] show ?thesis
  proof (elim disjE conjE)
    assume "b64_pad s = []" "length (sextets s) mod 4 = 0"
    with lastb show ?thesis
      by (cases "sextets s = []") (simp_all add: b64_encode_split strip_padding_def)
  next
    assume p: "b64_pad s = [61]" and l: "length (sextets s) mod 4 = 3"
    then have ne: "sextets s \<noteq> []" by auto
    from l have "(length (sextets s) + 1) mod 4 = 0" by presburger
    with p ne lastb show ?thesis
      by (simp add: b64_encode_split strip_padding_def butlast_append)
  next
    assume p: "b64_pad s = [61, 61]" and l: "length (sextets s) mod 4 = 2"
    then have ne: "sextets s \<noteq> []" by auto
    from l have "(length (sextets s) + 2) mod 4 = 0" by presburger
    with p ne show ?thesis
      by (simp add: b64_encode_split strip_padding_def butlast_append)
  qed
qed

lemma b64_encode_plain:
  assumes "\<forall>u \<in> set s. u < 256"
  shows "\<forall>c \<in> set (b64_encode s). \<not> is_ascii_whitespace c \<and> \<not> is_js_whitespace c"
proof -
  have "\<forall>c \<in> set (b64_pad s). c = 61"
    using b64_pad_cases [of s] by auto
  then have "\<forall>c \<in> set (b64_pad s). \<not> is_ascii_whitespace c \<and> \<not> is_js_whitespace c"
    by (auto simp: is_ascii_whitespace_def is_js_whitespace_def)
  moreover have "\<forall>c \<in> set (map b64_char (sextets s)). \<not> is_ascii_whitespace c \<and> \<not> is_js_whitespace c"
    using sextets_lt [OF assms] b64_char_plain by auto
  ultimately show ?thesis by (auto simp: b64_encode_split)
qed

lemma atob_b64_encode:
  assumes "\<forall>u \<in> set s. u < 256"
  shows "atob (b64_encode s) = Inr s"
proof -
  have f: "filter (\<lambda>c. \<not> is_ascii_whitespace c) (b64_encode s) = b64_encode s"
    using b64_encode_plain [OF assms] by (simp add: filter_id_conv)
  have lt: "\<forall>x \<in> set (sextets s). x < 64" using assms by (rule sextets_lt)
  have len: "length (sextets s) mod 4 \<noteq> 1"
    using b64_pad_cases [of s] by auto
  have idx: "map (\<lambda>c. the (b64_index c)) (map b64_char (sextets s)) = sextets s"
    using lt by (simp add: b64_index_char map_idI)
  have known: "\<not> (\<exists>c \<in> set (map b64_char (sextets s)). b64_index c = None)"
    using lt by (auto simp: b64_index_char)
  show ?thesis
    unfolding atob_def f strip_padding_encode [OF assms] Let_def idx
    using len known by (simp add: b64_decode_sextets [OF assms] del: set_map)
qed

section \<open>Percent-encoding there and recon\<close>

lemma hexval_hex_upper: "d < 16 \<Longrightarrow> hexval (hex_upper d) = Some d"
  unfolding hexval_def hex_upper_def by (auto split: if_splits)

lemma hex_upper_ascii: "d < 16 \<Longrightarrow> hex_upper d < 128"
  unfolding hex_upper_def by (auto split: if_splits)

lemma pct_tokens_pct:
  assumes "b < 256"
  shows "pct_tokens (pct b @ r) = map_option (\<lambda>ts. Oct b # ts) (pct_tokens r)"
proof -
  from assms have "b div 16 < 16" by (rule byte_hi)
  moreover have "b mod 16 < 16" by simp
  moreover have "16 * (b div 16) + b mod 16 = b" by simp
  ultimately show ?thesis
    by (simp add: pct_def hexval_hex_upper)
qed

lemma pct_tokens_pcts:
  "\<forall>b \<in> set bs. b < 256 \<Longrightarrow>
   pct_tokens (concat (map pct bs) @ r) = map_option (\<lambda>ts. map Oct bs @ ts) (pct_tokens r)"
proof (induction bs)
  case Nil
  then show ?case by (simp add: option.map_ident)
next
  case (Cons b bs)
  then show ?case
    by (simp add: pct_tokens_pct option.map_comp comp_def)
qed

lemma pct_ascii: "b < 256 \<Longrightarrow> \<forall>u \<in> set (pct b). u < 128"
  using byte_hi(1) [of b] by (simp add: pct_def hex_upper_ascii)

lemma mod_4096: "(x div 64) mod 64 * 64 + x mod 64 = x mod (4096::nat)"
  using mod_mult2_eq [of x 64 64] by simp

lemma mod_262144: "(x div 4096) mod 64 * 4096 + x mod 4096 = x mod (262144::nat)"
  using mod_mult2_eq [of x 4096 64] by simp

lemma utf8_bytes:
  assumes "cp < 1114112"
  shows "\<forall>b \<in> set (utf8 cp). b < 256"
proof -
  have "cp div 64 < 32" if "cp < 2048" using that by (simp add: less_mult_imp_div_less)
  moreover have "cp div 4096 < 16" if "cp < 65536" using that by (simp add: less_mult_imp_div_less)
  moreover have "cp div 262144 < 5" using assms by (simp add: less_mult_imp_div_less)
  moreover have "x mod 64 < 64" for x :: nat by simp
  ultimately show ?thesis
    by (auto simp: utf8_def intro: add_less_le_mono less_imp_le order.strict_trans2)
qed


lemma utf8_units_1:
  "cp < 128 \<Longrightarrow> utf8_units (map Oct (utf8 cp) @ ts) = map_option (\<lambda>u. utf16 cp @ u) (utf8_units ts)"
  by (simp add: utf8_def utf16_def)

lemma utf8_units_Oct2:
  "192 \<le> b \<Longrightarrow> b < 224 \<Longrightarrow> is_cont b1 \<Longrightarrow> 128 \<le> (b - 192) * 64 + (b1 - 128) \<Longrightarrow>
   utf8_units (Oct b # Oct b1 # r)
     = map_option (\<lambda>u. utf16 ((b - 192) * 64 + (b1 - 128)) @ u) (utf8_units r)"
  by (simp add: Let_def)

lemma utf8_units_Oct3:
  "224 \<le> b \<Longrightarrow> b < 240 \<Longrightarrow> is_cont b1 \<Longrightarrow> is_cont b2 \<Longrightarrow>
   2048 \<le> (b - 224) * 4096 + (b1 - 128) * 64 + (b2 - 128) \<Longrightarrow>
   \<not> (55296 \<le> (b - 224) * 4096 + (b1 - 128) * 64 + (b2 - 128)
      \<and> (b - 224) * 4096 + (b1 - 128) * 64 + (b2 - 128) \<le> 57343) \<Longrightarrow>
   utf8_units (Oct b # Oct b1 # Oct b2 # r)
     = map_option (\<lambda>u. utf16 ((b - 224) * 4096 + (b1 - 128) * 64 + (b2 - 128)) @ u)
                  (utf8_units r)"
  by (simp add: Let_def)

lemma utf8_units_Oct4:
  "240 \<le> b \<Longrightarrow> b < 248 \<Longrightarrow> is_cont b1 \<Longrightarrow> is_cont b2 \<Longrightarrow> is_cont b3 \<Longrightarrow>
   65536 \<le> (b - 240) * 262144 + (b1 - 128) * 4096 + (b2 - 128) * 64 + (b3 - 128) \<Longrightarrow>
   (b - 240) * 262144 + (b1 - 128) * 4096 + (b2 - 128) * 64 + (b3 - 128) \<le> 1114111 \<Longrightarrow>
   utf8_units (Oct b # Oct b1 # Oct b2 # Oct b3 # r)
     = map_option (\<lambda>u. utf16 ((b - 240) * 262144 + (b1 - 128) * 4096 + (b2 - 128) * 64
                                 + (b3 - 128)) @ u)
                  (utf8_units r)"
  by (simp add: Let_def)

lemma is_cont_low: "x < 64 \<Longrightarrow> is_cont (128 + x)"
  by (simp add: is_cont_def)

lemma utf8_units_2:
  assumes "128 \<le> cp" "cp < 2048"
  shows "utf8_units (map Oct (utf8 cp) @ ts) = map_option (\<lambda>u. utf16 cp @ u) (utf8_units ts)"
proof -
  from assms have hi: "cp div 64 < 32" by (simp add: less_mult_imp_div_less)
  have val: "(192 + cp div 64 - 192) * 64 + (128 + cp mod 64 - 128) = cp" by simp
  have u: "utf8 cp = [192 + cp div 64, 128 + cp mod 64]"
    using assms by (simp add: utf8_def)
  have "utf8_units (Oct (192 + cp div 64) # Oct (128 + cp mod 64) # ts)
          = map_option (\<lambda>u. utf16 ((192 + cp div 64 - 192) * 64 + (128 + cp mod 64 - 128)) @ u)
                       (utf8_units ts)"
  proof (rule utf8_units_Oct2)
    show "192 \<le> 192 + cp div 64" by simp
    show "192 + cp div 64 < 224" using hi by simp
    show "is_cont (128 + cp mod 64)" by (rule is_cont_low) simp
    show "128 \<le> (192 + cp div 64 - 192) * 64 + (128 + cp mod 64 - 128)"
      unfolding val by (rule assms)
  qed
  then show ?thesis unfolding val by (simp add: u)
qed

lemma utf8_units_3:
  assumes "2048 \<le> cp" "cp < 65536" "\<not> (55296 \<le> cp \<and> cp \<le> 57343)"
  shows "utf8_units (map Oct (utf8 cp) @ ts) = map_option (\<lambda>u. utf16 cp @ u) (utf8_units ts)"
proof -
  from assms have hi: "cp div 4096 < 16" by (simp add: less_mult_imp_div_less)
  have "cp div 4096 * 4096 + cp mod 4096 = cp" by simp
  then have "cp div 4096 * 4096 + (cp div 64 mod 64 * 64 + cp mod 64) = cp"
    by (simp only: mod_4096)
  then have val: "(224 + cp div 4096 - 224) * 4096 + (128 + cp div 64 mod 64 - 128) * 64
                    + (128 + cp mod 64 - 128) = cp"
    by simp
  have u: "utf8 cp = [224 + cp div 4096, 128 + cp div 64 mod 64, 128 + cp mod 64]"
    using assms by (simp add: utf8_def)
  have "utf8_units (Oct (224 + cp div 4096) # Oct (128 + cp div 64 mod 64) # Oct (128 + cp mod 64) # ts)
          = map_option (\<lambda>u. utf16 ((224 + cp div 4096 - 224) * 4096
                                     + (128 + cp div 64 mod 64 - 128) * 64
                                     + (128 + cp mod 64 - 128)) @ u)
                       (utf8_units ts)"
  proof (rule utf8_units_Oct3)
    show "224 \<le> 224 + cp div 4096" by simp
    show "224 + cp div 4096 < 240" using hi by simp
    show "is_cont (128 + cp div 64 mod 64)" by (rule is_cont_low) simp
    show "is_cont (128 + cp mod 64)" by (rule is_cont_low) simp
    show "2048 \<le> (224 + cp div 4096 - 224) * 4096 + (128 + cp div 64 mod 64 - 128) * 64
                    + (128 + cp mod 64 - 128)"
      unfolding val by (rule assms)
    show "\<not> (55296 \<le> (224 + cp div 4096 - 224) * 4096 + (128 + cp div 64 mod 64 - 128) * 64
                    + (128 + cp mod 64 - 128)
             \<and> (224 + cp div 4096 - 224) * 4096 + (128 + cp div 64 mod 64 - 128) * 64
                    + (128 + cp mod 64 - 128) \<le> 57343)"
      unfolding val by (rule assms)
  qed
  then show ?thesis unfolding val by (simp add: u)
qed

lemma utf8_units_4:
  assumes "65536 \<le> cp" "cp < 1114112"
  shows "utf8_units (map Oct (utf8 cp) @ ts) = map_option (\<lambda>u. utf16 cp @ u) (utf8_units ts)"
proof -
  from assms have hi: "cp div 262144 < 5" by (simp add: less_mult_imp_div_less)
  have "cp div 262144 * 262144 + cp mod 262144 = cp" by simp
  then have "cp div 262144 * 262144 + (cp div 4096 mod 64 * 4096 + cp mod 4096) = cp"
    by (simp only: mod_262144)
  then have "cp div 262144 * 262144
               + (cp div 4096 mod 64 * 4096 + (cp div 64 mod 64 * 64 + cp mod 64)) = cp"
    by (simp only: mod_4096)
  then have val: "(240 + cp div 262144 - 240) * 262144 + (128 + cp div 4096 mod 64 - 128) * 4096
                    + (128 + cp div 64 mod 64 - 128) * 64 + (128 + cp mod 64 - 128) = cp"
    by simp
  have u: "utf8 cp = [240 + cp div 262144, 128 + cp div 4096 mod 64, 128 + cp div 64 mod 64,
                      128 + cp mod 64]"
    using assms by (simp add: utf8_def)
  have "utf8_units (Oct (240 + cp div 262144) # Oct (128 + cp div 4096 mod 64)
                      # Oct (128 + cp div 64 mod 64) # Oct (128 + cp mod 64) # ts)
          = map_option (\<lambda>u. utf16 ((240 + cp div 262144 - 240) * 262144
                                     + (128 + cp div 4096 mod 64 - 128) * 4096
                                     + (128 + cp div 64 mod 64 - 128) * 64
                                     + (128 + cp mod 64 - 128)) @ u)
                       (utf8_units ts)"
  proof (rule utf8_units_Oct4)
    show "240 \<le> 240 + cp div 262144" by simp
    show "240 + cp div 262144 < 248" using hi by simp
    show "is_cont (128 + cp div 4096 mod 64)" by (rule is_cont_low) simp
    show "is_cont (128 + cp div 64 mod 64)" by (rule is_cont_low) simp
    show "is_cont (128 + cp mod 64)" by (rule is_cont_low) simp
    show "65536 \<le> (240 + cp div 262144 - 240) * 262144 + (128 + cp div 4096 mod 64 - 128) * 4096
                    + (128 + cp div 64 mod 64 - 128) * 64 + (128 + cp mod 64 - 128)"
      unfolding val by (rule assms)
    show "(240 + cp div 262144 - 240) * 262144 + (128 + cp div 4096 mod 64 - 128) * 4096
            + (128 + cp div 64 mod 64 - 128) * 64 + (128 + cp mod 64 - 128) \<le> 1114111"
      unfolding val using assms by simp
  qed
  then show ?thesis unfolding val by (simp add: u)
qed

lemma utf8_units_utf8:
  assumes "cp < 1114112" "\<not> (55296 \<le> cp \<and> cp \<le> 57343)"
  shows "utf8_units (map Oct (utf8 cp) @ ts) = map_option (\<lambda>u. utf16 cp @ u) (utf8_units ts)"
proof -
  consider "cp < 128" | "128 \<le> cp" "cp < 2048" | "2048 \<le> cp" "cp < 65536" | "65536 \<le> cp"
    by linarith
  then show ?thesis
  proof cases
    case 1 then show ?thesis by (rule utf8_units_1)
  next
    case 2 then show ?thesis by (rule utf8_units_2)
  next
    case 3 with assms show ?thesis by (intro utf8_units_3) auto
  next
    case 4 with assms show ?thesis by (intro utf8_units_4) auto
  qed
qed

lemma pair_cp_range:
  assumes "is_lead c" "is_trail d"
  shows "65536 \<le> pair_cp c d" "pair_cp c d < 1114112" "utf16 (pair_cp c d) = [c, d]"
proof -
  define x where "x = c - 55296"
  define y where "y = d - 56320"
  have x: "c = 55296 + x" "x \<le> 1023"
    using assms(1) unfolding x_def is_lead_def by arith+
  have y: "d = 56320 + y" "y < 1024"
    using assms(2) unfolding y_def is_trail_def by arith+
  have val: "pair_cp c d = 65536 + (x * 1024 + y)"
    by (simp add: pair_cp_def x y)
  from x(2) have "x * 1024 \<le> 1023 * 1024" by (rule mult_le_mono1)
  with y(2) show "pair_cp c d < 1114112" unfolding val by simp
  show "65536 \<le> pair_cp c d" unfolding val by simp
  from y(2) have "(x * 1024 + y) div 1024 = x" "(x * 1024 + y) mod 1024 = y"
    by (simp_all add: split_div split_mod)
  then show "utf16 (pair_cp c d) = [c, d]"
    unfolding val utf16_def by (simp add: x(1) y(1))
qed

text \<open>
  A well-formed text is encoded, into ASCII, and decoding the result gives the text.
\<close>

lemma encode_units_wf16:
  "wf16 s \<Longrightarrow>
   \<exists>r ts. encode_units s = Some r \<and> (\<forall>u \<in> set r. u < 128)
          \<and> pct_tokens r = Some ts \<and> utf8_units ts = Some s"
proof (induction s rule: wf16.induct)
  case 1
  then show ?case by simp
next
  case (2 c cs)
  show ?case
  proof (cases "is_lead c")
    case True
    with "2.prems" obtain d ds where cs: "cs = d # ds" and d: "is_trail d" and w: "wf16 ds"
      by (cases cs) auto
    from "2.IH"(1) [OF True cs] d w obtain r ts where
      r: "encode_units ds = Some r" "\<forall>u \<in> set r. u < 128" "pct_tokens r = Some ts"
         "utf8_units ts = Some ds"
      by auto
    note p = pair_cp_range [OF True d]
    have nu: "\<not> uri_unreserved c"
      using True by (auto simp: uri_unreserved_def is_alnum_def is_lead_def)
    let ?bs = "utf8 (pair_cp c d)"
    have bytes: "\<forall>b \<in> set ?bs. b < 256" using p(2) by (rule utf8_bytes)
    have e: "encode_units (c # cs) = Some (concat (map pct ?bs) @ r)"
      using True nu d r(1) by (simp add: cs)
    moreover have "\<forall>u \<in> set (concat (map pct ?bs) @ r). u < 128"
      using bytes r(2) pct_ascii by auto
    moreover have "pct_tokens (concat (map pct ?bs) @ r) = Some (map Oct ?bs @ ts)"
      using bytes r(3) by (simp add: pct_tokens_pcts)
    moreover have "utf8_units (map Oct ?bs @ ts) = Some (c # cs)"
      using p r(4) by (subst utf8_units_utf8) (simp_all add: cs)
    ultimately show ?thesis by blast
  next
    case False
    with "2.prems" have nt: "\<not> is_trail c" and lt: "c < 65536" and w: "wf16 cs" by auto
    from "2.IH"(2) [OF False] w obtain r ts where
      r: "encode_units cs = Some r" "\<forall>u \<in> set r. u < 128" "pct_tokens r = Some ts"
         "utf8_units ts = Some cs"
      by auto
    show ?thesis
    proof (cases "uri_unreserved c")
      case True
      then have a: "c < 128" "c \<noteq> 37"
        by (auto simp: uri_unreserved_def is_alnum_def)
      have "encode_units (c # cs) = Some (c # r)" using True r(1) by simp
      moreover have "\<forall>u \<in> set (c # r). u < 128" using a r(2) by simp
      moreover have "pct_tokens (c # r) = Some (Lit c # ts)" using a r(3) by simp
      moreover have "utf8_units (Lit c # ts) = Some (c # cs)" using r(4) by simp
      ultimately show ?thesis by blast
    next
      case nu: False
      let ?bs = "utf8 c"
      from lt have lt': "c < 1114112" by simp
      have ns: "\<not> (55296 \<le> c \<and> c \<le> 57343)"
        using False nt by (auto simp: is_lead_def is_trail_def)
      have bytes: "\<forall>b \<in> set ?bs. b < 256" using lt' by (rule utf8_bytes)
      have "encode_units (c # cs) = Some (concat (map pct ?bs) @ r)"
        using False nu nt r(1) by simp
      moreover have "\<forall>u \<in> set (concat (map pct ?bs) @ r). u < 128"
        using bytes r(2) pct_ascii by auto
      moreover have "pct_tokens (concat (map pct ?bs) @ r) = Some (map Oct ?bs @ ts)"
        using bytes r(3) by (simp add: pct_tokens_pcts)
      moreover have "utf8_units (map Oct ?bs @ ts) = Some (c # cs)"
        using lt r(4) by (subst utf8_units_utf8 [OF lt' ns]) (simp add: utf16_def)
      ultimately show ?thesis by blast
    qed
  qed
qed

lemma decodeURIComponent_encodeURIComponent:
  assumes "wf16 s"
  shows "\<exists>r. encodeURIComponent s = Inr r \<and> (\<forall>u \<in> set r. u < 128) \<and> decodeURIComponent r = Inr s"
proof -
  from encode_units_wf16 [OF assms] obtain r ts where
    "encode_units s = Some r" "\<forall>u \<in> set r. u < 128" "pct_tokens r = Some ts" "utf8_units ts = Some s"
    by blast
  then show ?thesis
    by (simp add: encodeURIComponent_def decodeURIComponent_def)
qed

end
